theory Spec2Isabelle
  imports Complex_Main "HOL-Library.Word" "HOL-Library.AList"
begin

unbundle bit_operations_syntax

section \<open>Buffers, errors and JavaScript values\<close>

text \<open>
  A Node.js \<open>Buffer\<close> is a list of bytes. The checked reads (\<open>readUInt8\<close>,
  \<open>readUInt16LE\<close>, \<open>readUInt32LE\<close>, \<open>readUIntLE\<close>, \<open>readIntLE\<close>) throw a
  \<open>RangeError\<close> when the bytes asked for do not all lie inside the buffer; the
  unchecked accesses (\<open>buf[i]\<close>, \<open>buf.slice\<close>) never throw: an index out of range
  reads \<open>undefined\<close>, a slice is clamped to the buffer.
\<close>

type_synonym byte = "8 word"

datatype error =
    RangeError
  | MissingBytes string  \<comment> \<open>\<open>new Error(`BTHome spec for ${spec.name} is missing 'bytes'`)\<close>\<close>

text \<open>
  The values stored in \<open>readings\<close>. JavaScript numbers are modelled by exact
  rationals: every number the decoders build is an integer read from the buffer,
  or such an integer times a scale factor, printed by \<open>toFixed\<close> and parsed again.
  The model departs from the doubles of the code where the exact product lies on a
  rounding tie of \<open>toFixed\<close> and the double product beside it: with the scale 0.35 the
  raw values 90 and -90 give 32 and -32 here, 31 and -31 in the code. Negative zero is
  zero. A string is the list of its code units; a text decoded from UTF-8 is kept as its
  bytes, so an ill-formed sequence, which the code replaces by U+FFFD, stays as it is.
  The only object is the dimmer event \<open>{ event, steps }\<close>.
\<close>

datatype jsval =
    Num rat
  | Str string
  | DimmerObj string nat

definition index :: "byte list \<Rightarrow> nat \<Rightarrow> nat option" where
  \<comment> \<open>\<open>buf[i]\<close>: \<open>undefined\<close> out of range\<close>
  "index buf i = (if i < length buf then Some (unat (buf ! i)) else None)"

definition slice :: "byte list \<Rightarrow> nat \<Rightarrow> nat \<Rightarrow> byte list" where
  \<comment> \<open>\<open>buf.slice(start, end)\<close> for \<open>0 \<le> start\<close>, \<open>0 \<le> end\<close>: clamped, empty when \<open>end \<le> start\<close>\<close>
  "slice buf start end = take (end - start) (drop start buf)"

definition readUInt8 :: "byte list \<Rightarrow> nat \<Rightarrow> error + nat" where
  "readUInt8 buf offset =
     (if offset < length buf then Inr (unat (buf ! offset)) else Inl RangeError)"

fun le_value :: "byte list \<Rightarrow> nat" where
  "le_value [] = 0"
| "le_value (b # bs) = unat b + 256 * le_value bs"

definition readUIntLE :: "byte list \<Rightarrow> nat \<Rightarrow> nat \<Rightarrow> error + int" where
  "readUIntLE buf offset byteLength =
     (if offset + byteLength \<le> length buf
      then Inr (int (le_value (take byteLength (drop offset buf))))
      else Inl RangeError)"

definition readIntLE :: "byte list \<Rightarrow> nat \<Rightarrow> nat \<Rightarrow> error + int" where
  \<comment> \<open>two's complement on \<open>8 * byteLength\<close> bits; the table has \<open>byteLength\<close> from 1 to 4,
      inside the 1 to 6 that Node accepts\<close>
  "readIntLE buf offset byteLength =
     (if offset + byteLength \<le> length buf
      then (let v = int (le_value (take byteLength (drop offset buf)))
            in Inr (if 2 ^ (8 * byteLength - 1) \<le> v then v - 2 ^ (8 * byteLength) else v))
      else Inl RangeError)"

definition readUInt16LE :: "byte list \<Rightarrow> nat \<Rightarrow> error + nat" where
  "readUInt16LE buf offset =
     (if offset + 2 \<le> length buf
      then Inr (le_value (take 2 (drop offset buf)))
      else Inl RangeError)"

definition readUInt32LE :: "byte list \<Rightarrow> nat \<Rightarrow> error + nat" where
  "readUInt32LE buf offset =
     (if offset + 4 \<le> length buf
      then Inr (le_value (take 4 (drop offset buf)))
      else Inl RangeError)"

subsection \<open>Printing numbers and bytes\<close>

definition digit_char :: "nat \<Rightarrow> char" where
  "digit_char d = ''0123456789abcdef'' ! d"

fun radix_string :: "nat \<Rightarrow> nat \<Rightarrow> string" where
  \<comment> \<open>\<open>n.toString(radix)\<close> for a non-negative integer, radix 10 or 16\<close>
  "radix_string radix n =
     (if n < radix \<or> radix < 2 then [digit_char n]
      else radix_string radix (n div radix) @ [digit_char (n mod radix)])"

declare radix_string.simps [simp del]

definition dec_string :: "nat \<Rightarrow> string" where
  "dec_string n = radix_string 10 n"

definition hex_string :: "nat \<Rightarrow> string" where
  \<comment> \<open>\<open>n.toString(16)\<close>: no padding\<close>
  "hex_string n = radix_string 16 n"

definition hex_of_bytes :: "byte list \<Rightarrow> string" where
  \<comment> \<open>\<open>buf.toString('hex')\<close>: two lower-case digits for each byte\<close>
  "hex_of_bytes bs =
     concat (map (\<lambda>b. [digit_char (unat b div 16), digit_char (unat b mod 16)]) bs)"

definition utf8_string :: "byte list \<Rightarrow> string" where
  \<comment> \<open>\<open>buf.toString('utf8')\<close>, the text kept as its UTF-8 bytes\<close>
  "utf8_string bs = map (\<lambda>b. char_of (unat b)) bs"

definition template_part :: "nat option \<Rightarrow> string" where
  \<comment> \<open>\<open>`${x}`\<close> for a byte taken out of a slice by destructuring: \<open>undefined\<close> past its end\<close>
  "template_part x = (case x of None \<Rightarrow> ''undefined'' | Some n \<Rightarrow> dec_string n)"

definition pad_left :: "nat \<Rightarrow> string \<Rightarrow> string" where
  "pad_left w s = replicate (w - length s) CHR ''0'' @ s"

text \<open>
  \<open>new Date(ms).toISOString()\<close> for a non-negative number of milliseconds: the civil
  date of the day number, then the time of day. A date beyond the range of \<open>Date\<close> is
  invalid, and \<open>toISOString\<close> throws a \<open>RangeError\<close> on it.
\<close>

definition civil_from_days :: "nat \<Rightarrow> nat \<times> nat \<times> nat" where
  "civil_from_days days =
     (let z = days + 719468;
          era = z div 146097;
          doe = z mod 146097;
          yoe = (doe - doe div 1460 + doe div 36524 - doe div 146096) div 365;
          doy = doe - (365 * yoe + yoe div 4 - yoe div 100);
          mp = (5 * doy + 2) div 153;
          d = doy - (153 * mp + 2) div 5 + 1;
          m = (if mp < 10 then mp + 3 else mp - 9);
          y = yoe + era * 400 + (if m \<le> 2 then 1 else 0)
      in (y, m, d))"

definition toISOString :: "nat \<Rightarrow> error + string" where
  "toISOString ms =
     (if 8640000000000000 < ms then Inl RangeError
      else (let (y, m, d) = civil_from_days (ms div 86400000);
                t = ms mod 86400000
            in Inr ((if y \<le> 9999 then pad_left 4 (dec_string y)
                     else ''+'' @ pad_left 6 (dec_string y))
                    @ ''-'' @ pad_left 2 (dec_string m)
                    @ ''-'' @ pad_left 2 (dec_string d)
                    @ ''T'' @ pad_left 2 (dec_string (t div 3600000))
                    @ '':'' @ pad_left 2 (dec_string (t div 60000 mod 60))
                    @ '':'' @ pad_left 2 (dec_string (t div 1000 mod 60))
                    @ ''.'' @ pad_left 3 (dec_string (t mod 1000))
                    @ ''Z'')))"

section \<open>The field specification table (BTHomeSpec.ts)\<close>

datatype parser_fn =
    TextParser            \<comment> \<open>0x53\<close>
  | RawParser             \<comment> \<open>0x54\<close>
  | ButtonParser          \<comment> \<open>0x3a\<close>
  | DimmerParser          \<comment> \<open>0x3c\<close>
  | TimestampParser       \<comment> \<open>0x50\<close>
  | FirmwareParser        \<comment> \<open>0xf1\<close>
  | FirmwareShortParser   \<comment> \<open>0xf2\<close>

record BTHomeSpecEntry =
  name :: string
  bytes :: "nat option"        \<comment> \<open>\<open>null\<close> for length-prefixed fields\<close>
  signed_flag :: bool          \<comment> \<open>\<open>signed\<close>; an absent \<open>signed\<close> is falsy\<close>
  factor :: "rat option"
  parser :: "parser_fn option"

definition numeric :: "string \<Rightarrow> nat \<Rightarrow> bool \<Rightarrow> rat \<Rightarrow> BTHomeSpecEntry" where
  \<comment> \<open>\<open>{ name, bytes, signed, factor }\<close>\<close>
  "numeric n b s f = \<lparr>name = n, bytes = Some b, signed_flag = s, factor = Some f, parser = None\<rparr>"

definition parsed :: "string \<Rightarrow> nat \<Rightarrow> parser_fn \<Rightarrow> BTHomeSpecEntry" where
  \<comment> \<open>\<open>{ name, bytes, signed: false, factor: 1, parser }\<close>\<close>
  "parsed n b p = \<lparr>name = n, bytes = Some b, signed_flag = False, factor = Some 1, parser = Some p\<rparr>"

definition prefixed :: "string \<Rightarrow> parser_fn \<Rightarrow> BTHomeSpecEntry" where
  \<comment> \<open>\<open>{ name, parser, bytes: null }\<close>\<close>
  "prefixed n p = \<lparr>name = n, bytes = None, signed_flag = False, factor = None, parser = Some p\<rparr>"

definition BTHOME_SPEC_entries :: "(nat \<times> BTHomeSpecEntry) list" where
  "BTHOME_SPEC_entries =
   [(0x00, numeric ''packetId'' 1 False 1),
    (0x01, numeric ''battery'' 1 False 1),
    (0x02, numeric ''temperature'' 2 True (1/100)),
    (0x03, numeric ''humidity'' 2 False (1/100)),
    (0x04, numeric ''pressure'' 3 False (1/100)),
    (0x05, numeric ''illuminance'' 3 False (1/100)),
    (0x06, numeric ''massKilograms'' 2 False (1/100)),
    (0x07, numeric ''massPounds'' 2 False (1/100)),
    (0x08, numeric ''dewPoint'' 2 True (1/100)),
    (0x09, numeric ''countSmall'' 1 False 1),
    (0x0a, numeric ''energy_kWh'' 3 False (1/1000)),
    (0x0b, numeric ''power_W'' 3 False (1/100)),
    (0x0c, numeric ''voltage_V'' 2 False (1/1000)),
    (0x0d, numeric ''pm2_5_ugm3'' 2 False 1),
    (0x0e, numeric ''pm10_ugm3'' 2 False 1),
    (0x13, numeric ''tvoc_ugm3'' 2 False 1),
    (0x14, numeric ''moisture'' 2 False (1/100)),
    (0x2e, numeric ''humidity'' 1 False 1),
    (0x2f, numeric ''moisture'' 1 False 1),
    (0x40, numeric ''distance_mm'' 2 False 1),
    (0x41, numeric ''distance_m'' 2 False (1/10)),
    (0x42, numeric ''duration_s'' 3 False (1/1000)),
    (0x43, numeric ''current_A'' 2 False (1/1000)),
    (0x44, numeric ''speed_ms'' 2 False (1/100)),
    (0x45, numeric ''temperature'' 2 True (1/10)),
    (0x46, numeric ''uvIndex'' 1 False (1/10)),
    (0x47, numeric ''volume_L'' 2 False (1/10)),
    (0x48, numeric ''volume_mL'' 2 False 1),
    (0x49, numeric ''flowRate_m3ph'' 2 False (1/1000)),
    (0x4a, numeric ''voltage_alt_V'' 2 False (1/10)),
    (0x4b, numeric ''gas_m3'' 3 False (1/1000)),
    (0x4c, numeric ''gas_alt_m3'' 4 False (1/1000)),
    (0x4d, numeric ''energy_alt_kWh'' 4 False (1/1000)),
    (0x4e, numeric ''volume_alt_L'' 4 False (1/1000)),
    (0x4f, numeric ''water_L'' 4 False (1/1000)),
    (0x52, numeric ''gyroscope_dps'' 2 False (1/1000)),
    (0x53, prefixed ''text'' TextParser),
    (0x54, prefixed ''raw'' RawParser),
    (0x55, numeric ''volumeStorage_L'' 4 False (1/1000)),
    (0x57, numeric ''temperature'' 1 True 1),
    (0x58, numeric ''temperature'' 1 True (35/100)),
    (0x59, numeric ''count8'' 1 True 1),
    (0x5a, numeric ''count16'' 2 True 1),
    (0x5b, numeric ''count32'' 4 True 1),
    (0x5c, numeric ''power_alt_W'' 4 True (1/100)),
    (0x5d, numeric ''current_alt_A'' 2 True (1/1000)),
    (0x5e, numeric ''direction_deg'' 2 False (1/100)),
    (0x5f, numeric ''precipitation_mm'' 2 False 1),
    (0x0f, numeric ''genericBoolean'' 1 False 1),
    (0x10, numeric ''powerState'' 1 False 1),
    (0x11, numeric ''openingState'' 1 False 1),
    (0x15, numeric ''batteryState'' 1 False 1),
    (0x16, numeric ''batteryChargingState'' 1 False 1),
    (0x17, numeric ''carbonMonoxideState'' 1 False 1),
    (0x18, numeric ''coldState'' 1 False 1),
    (0x19, numeric ''connectivityState'' 1 False 1),
    (0x1a, numeric ''doorState'' 1 False 1),
    (0x1b, numeric ''garageDoorState'' 1 False 1),
    (0x1c, numeric ''gasState'' 1 False 1),
    (0x1d, numeric ''heatState'' 1 False 1),
    (0x1e, numeric ''lightState'' 1 False 1),
    (0x1f, numeric ''lockState'' 1 False 1),
    (0x20, numeric ''moistureState'' 1 False 1),
    (0x21, numeric ''motionState'' 1 False 1),
    (0x22, numeric ''movingState'' 1 False 1),
    (0x23, numeric ''occupancyState'' 1 False 1),
    (0x24, numeric ''plugState'' 1 False 1),
    (0x25, numeric ''presenceState'' 1 False 1),
    (0x26, numeric ''problemState'' 1 False 1),
    (0x27, numeric ''runningState'' 1 False 1),
    (0x28, numeric ''safetyState'' 1 False 1),
    (0x29, numeric ''smokeState'' 1 False 1),
    (0x2a, numeric ''soundState'' 1 False 1),
    (0x2b, numeric ''tamperState'' 1 False 1),
    (0x2c, numeric ''vibrationState'' 1 False 1),
    (0x2d, numeric ''windowState'' 1 False 1),
    (0x3a, parsed ''button'' 1 ButtonParser),
    (0x3c, parsed ''dimmerEvent'' 2 DimmerParser),
    (0x3f, numeric ''rotation_deg'' 2 True (1/10)),
    (0x50, parsed ''timestamp'' 4 TimestampParser),
    (0xf0, numeric ''deviceTypeId'' 2 False 1),
    (0xf1, parsed ''firmwareVersion'' 4 FirmwareParser),
    (0xf2, parsed ''firmwareVersionShort'' 3 FirmwareShortParser)]"

definition BTHOME_SPEC :: "nat \<Rightarrow> BTHomeSpecEntry option" where
  "BTHOME_SPEC oid = map_of BTHOME_SPEC_entries oid"

subsection \<open>The custom parsers\<close>

definition EVENT_MAP :: "nat \<Rightarrow> string option" where
  "EVENT_MAP code =
     map_of [(0x00, ''none''), (0x01, ''single_press''), (0x02, ''double_press''),
             (0x03, ''triple_press''), (0x04, ''long_press''), (0x05, ''long_double_press''),
             (0x06, ''long_triple_press''), (0x80, ''hold_press''), (0xfe, ''hold_press'')] code"

definition dimmer_map :: "nat \<Rightarrow> string option" where
  "dimmer_map evt = map_of [(0x00, ''none''), (0x01, ''rotateLeft''), (0x02, ''rotateRight'')] evt"

definition prefixed_slice :: "byte list \<Rightarrow> nat \<Rightarrow> byte list" where
  \<comment> \<open>\<open>buf.slice(off + 1, off + 1 + buf[off])\<close>; with \<open>buf[off]\<close> undefined the end is
      \<open>NaN\<close>, which \<open>slice\<close> reads as 0\<close>
  "prefixed_slice buf off =
     (case index buf off of None \<Rightarrow> [] | Some len \<Rightarrow> slice buf (off + 1) (off + 1 + len))"

definition run_parser :: "parser_fn \<Rightarrow> byte list \<Rightarrow> nat \<Rightarrow> error + jsval" where
  "run_parser p buf off =
     (case p of
        TextParser \<Rightarrow> Inr (Str (utf8_string (prefixed_slice buf off)))
      | RawParser \<Rightarrow> Inr (Str (hex_of_bytes (prefixed_slice buf off)))
      | ButtonParser \<Rightarrow>
          (case readUInt8 buf off of
             Inl e \<Rightarrow> Inl e
           | Inr code \<Rightarrow> Inr (Str (case EVENT_MAP code of Some s \<Rightarrow> s | None \<Rightarrow> ''unknown'')))
      | DimmerParser \<Rightarrow>
          (case readUInt8 buf off of
             Inl e \<Rightarrow> Inl e
           | Inr evt \<Rightarrow>
               (case readUInt8 buf (off + 1) of
                  Inl e \<Rightarrow> Inl e
                | Inr steps \<Rightarrow>
                    Inr (DimmerObj (case dimmer_map evt of
                                      Some s \<Rightarrow> s
                                    | None \<Rightarrow> ''evt0x'' @ hex_string evt) steps)))
      | TimestampParser \<Rightarrow>
          (case readUInt32LE buf off of
             Inl e \<Rightarrow> Inl e
           | Inr secs \<Rightarrow> (case toISOString (secs * 1000) of Inl e \<Rightarrow> Inl e | Inr s \<Rightarrow> Inr (Str s)))
      | FirmwareParser \<Rightarrow>
          (let s = slice buf off (off + 4);
               rc = index s 0; patch = index s 1; minor = index s 2; major = index s 3
           in Inr (Str (template_part major @ ''.'' @ template_part minor @ ''.''
                        @ template_part patch @ ''.'' @ template_part rc)))
      | FirmwareShortParser \<Rightarrow>
          (let s = slice buf off (off + 3);
               minor = index s 0; patch = index s 1; major = index s 2
           in Inr (Str (template_part major @ ''.'' @ template_part minor @ ''.''
                        @ template_part patch))))"

subsection \<open>The generic numeric value\<close>

text \<open>
  \<open>parseFloat((raw * factor).toFixed(Math.log10(1 / factor)))\<close>. \<open>toFixed\<close> truncates its
  argument to an integer number of digits, throws a \<open>RangeError\<close> unless that is between 0
  and 100, rounds the magnitude to that many decimals (a tie goes up) and prints it;
  \<open>parseFloat\<close> reads the decimal back. A negative \<open>1 / factor\<close> has the logarithm \<open>NaN\<close>,
  which counts as 0 digits; \<open>factor = 0\<close> gives infinitely many.
\<close>

fun ilog10 :: "nat \<Rightarrow> nat" where
  \<comment> \<open>the integer part of \<open>log10 n\<close>, for \<open>1 \<le> n\<close>\<close>
  "ilog10 n = (if n < 10 then 0 else Suc (ilog10 (n div 10)))"

declare ilog10.simps [simp del]

definition trunc_log10 :: "rat \<Rightarrow> int" where
  \<comment> \<open>\<open>Math.log10 x\<close> truncated towards zero, for \<open>0 < x\<close>\<close>
  "trunc_log10 x =
     (if 1 \<le> x then int (ilog10 (nat \<lfloor>x\<rfloor>)) else - int (ilog10 (nat \<lfloor>1 / x\<rfloor>)))"

definition fraction_digits :: "rat \<Rightarrow> error + nat" where
  "fraction_digits fct =
     (if fct = 0 then Inl RangeError
      else if fct < 0 then Inr 0
      else (let d = trunc_log10 (1 / fct)
            in if d < 0 \<or> 100 < d then Inl RangeError else Inr (nat d)))"

definition toFixed :: "rat \<Rightarrow> nat \<Rightarrow> rat" where
  \<comment> \<open>the number that \<open>x.toFixed(d)\<close> prints\<close>
  "toFixed x d = sgn x * of_int \<lfloor>\<bar>x\<bar> * 10 ^ d + 1 / 2\<rfloor> / 10 ^ d"

definition number_value :: "int \<Rightarrow> rat \<Rightarrow> error + jsval" where
  "number_value raw fct =
     (case fraction_digits fct of
        Inl e \<Rightarrow> Inl e
      | Inr d \<Rightarrow> Inr (Num (toFixed (of_int raw * fct) d)))"

section \<open>The decoder (BTHomeDecoder.ts)\<close>

record DecodedBTHome =
  version :: nat
  encrypted :: bool
  trigger :: bool
  readings :: "(string \<times> jsval) list"
  unknown :: "string list"

definition field_value :: "byte list \<Rightarrow> nat \<Rightarrow> BTHomeSpecEntry \<Rightarrow> error + (jsval \<times> nat)" where
  \<comment> \<open>lines 73 to 100: the value of the field whose data starts at \<open>offset\<close>, and the
      offset after it\<close>
  "field_value buf offset spec =
     (case parser spec of
        Some p \<Rightarrow>
          (case run_parser p buf offset of
             Inl e \<Rightarrow> Inl e
           | Inr v \<Rightarrow>
               (case bytes spec of
                  Some n \<Rightarrow> Inr (v, offset + n)
                | None \<Rightarrow>
                    (case readUInt8 buf offset of
                       Inl e \<Rightarrow> Inl e
                     | Inr len \<Rightarrow> Inr (v, offset + (1 + len)))))
      | None \<Rightarrow>
          (case bytes spec of
             None \<Rightarrow> Inl (MissingBytes (name spec))
           | Some n \<Rightarrow>
               (case (if signed_flag spec then readIntLE buf offset n else readUIntLE buf offset n) of
                  Inl e \<Rightarrow> Inl e
                | Inr raw \<Rightarrow>
                    (case number_value raw (case factor spec of Some f \<Rightarrow> f | None \<Rightarrow> 1) of
                       Inl e \<Rightarrow> Inl e
                     | Inr v \<Rightarrow> Inr (v, offset + n)))))"

definition store_reading ::
  "nat list \<Rightarrow> nat \<Rightarrow> string \<Rightarrow> jsval \<Rightarrow> (string \<times> jsval) list \<Rightarrow> (string \<times> jsval) list" where
  \<comment> \<open>lines 102 to 114: \<open>ids\<close> already holds the current id. \<open>spec.name in readings\<close> also
      finds the properties of \<open>Object.prototype\<close>; no name of the table is one of them\<close>
  "store_reading ids oid nm v rd =
     (let count = length (filter (\<lambda>existingId. existingId = oid) ids)
      in if 1 < count
         then AList.update (nm @ '':'' @ dec_string count) v
                (case map_of rd nm of
                   Some old \<Rightarrow> AList.delete nm (AList.update (nm @ '':1'') old rd)
                 | None \<Rightarrow> rd)
         else AList.update nm v rd)"

definition unknown_entry :: "nat \<Rightarrow> byte list \<Rightarrow> string" where
  \<comment> \<open>\<open>`0x${id.toString(16)} \<rightarrow> 0x${rest.toString('hex')}`\<close>, the arrow U+2192 as its UTF-8 bytes\<close>
  "unknown_entry oid rest =
     ''0x'' @ hex_string oid @ '' '' @ [CHR 0xE2, CHR 0x86, CHR 0x92] @ '' 0x'' @ hex_of_bytes rest"

text \<open>
  The loop of lines 62 to 115, from the offset, the ids seen, the readings and the unknown
  list it holds. Under the guard \<open>offset < buf.length\<close> the read of the id byte cannot fail.
\<close>

function decode_loop ::
  "byte list \<Rightarrow> nat \<Rightarrow> nat list \<Rightarrow> (string \<times> jsval) list \<Rightarrow> string list
     \<Rightarrow> error + ((string \<times> jsval) list \<times> string list)" where
  "decode_loop buf offset ids rd unk =
     (if offset < length buf
      then (let oid = unat (buf ! offset)
            in case BTHOME_SPEC oid of
                 None \<Rightarrow> Inr (rd, unk @ [unknown_entry oid (drop offset buf)])
               | Some spec \<Rightarrow>
                   (case field_value buf (offset + 1) spec of
                      Inl e \<Rightarrow> Inl e
                    | Inr (v, offset') \<Rightarrow>
                        decode_loop buf offset' (ids @ [oid])
                          (store_reading (ids @ [oid]) oid (name spec) v rd) unk))
      else Inr (rd, unk))"
  by pat_completeness auto
termination
  by (relation "measure (\<lambda>(buf, offset, ids, rd, unk). length buf - offset)")
     (auto simp: field_value_def split: option.splits sum.splits if_splits)

declare decode_loop.simps [simp del]

definition decodeBTHome :: "byte list \<Rightarrow> error + DecodedBTHome" where
  "decodeBTHome buf =
     (case readUInt8 buf 0 of
        Inl e \<Rightarrow> Inl e
      | Inr info \<Rightarrow>
          (case decode_loop buf 1 [] [] [] of
             Inl e \<Rightarrow> Inl e
           | Inr (rd, unk) \<Rightarrow>
               Inr \<lparr>version = drop_bit 5 info AND 7,
                    encrypted = (info AND 1 \<noteq> 0),
                    trigger = (info AND 4 \<noteq> 0),
                    readings = rd,
                    unknown = unk\<rparr>))"

section \<open>The vendor manufacturer-data decoder (BTHomeShellyMdDecoder.ts)\<close>

definition SHELLY_MODEL_LONG_NAMES :: "nat \<Rightarrow> string option" where
  "SHELLY_MODEL_LONG_NAMES n =
     map_of [(0x0001, ''Shelly BLU Button1''), (0x0002, ''Shelly BLU DoorWindow''),
             (0x0003, ''Shelly BLU HT''), (0x0005, ''Shelly BLU Motion''),
             (0x0006, ''Shelly BLU Wall Switch 4''), (0x0007, ''Shelly BLU RC Button 4''),
             (0x0008, ''Shelly BLU TRV'')] n"

definition SHELLY_MODEL_SHORT_NAMES :: "nat \<Rightarrow> string option" where
  "SHELLY_MODEL_SHORT_NAMES n =
     map_of [(0x0001, ''SBBT-002C''), (0x0002, ''SBDW-002C''), (0x0003, ''SBHT-003C''),
             (0x0005, ''SBMO-003Z''), (0x0006, ''SBBT-004CEU''), (0x0007, ''SBBT-004CUS''),
             (0x0008, ''SBTR-001AEU'')] n"

definition getShellyBluLongName :: "nat \<Rightarrow> string option" where
  "getShellyBluLongName n = SHELLY_MODEL_LONG_NAMES n"

definition getShellyBluShortName :: "nat \<Rightarrow> string option" where
  "getShellyBluShortName n = SHELLY_MODEL_SHORT_NAMES n"

record ShellyFlags =
  discoverable :: bool
  authEnabled :: bool
  rpcEnabled :: bool
  buzzerEnabled :: bool
  inPairingMode :: bool

record ShellyManufacturerData =
  companyId :: nat
  flags :: "ShellyFlags option"
  modelId :: "nat option"
  modelIdShortName :: "string option"
  modelIdLongName :: "string option"
  mac :: "string option"

datatype shelly_input =
    Buffer "byte list"
  | HexString string

definition input_length :: "shelly_input \<Rightarrow> nat" where
  \<comment> \<open>\<open>input.length\<close>: the bytes of a buffer, the characters of a string\<close>
  "input_length input = (case input of Buffer b \<Rightarrow> length b | HexString s \<Rightarrow> length s)"

definition is_space :: "char \<Rightarrow> bool" where
  \<comment> \<open>the class \<open>\s\<close>, among the code units below 256\<close>
  "is_space c = (c \<in> set [CHR 0x09, CHR 0x0A, CHR 0x0B, CHR 0x0C, CHR 0x0D, CHR 0x20, CHR 0xA0])"

definition unhex :: "char \<Rightarrow> nat option" where
  "unhex c =
     (let n = of_char c :: nat
      in if 48 \<le> n \<and> n \<le> 57 then Some (n - 48)
         else if 97 \<le> n \<and> n \<le> 102 then Some (n - 87)
         else if 65 \<le> n \<and> n \<le> 70 then Some (n - 55)
         else None)"

fun hex_decode :: "string \<Rightarrow> byte list" where
  \<comment> \<open>\<open>Buffer.from(s, 'hex')\<close>: whole pairs of digits, up to the first pair that is not hex\<close>
  "hex_decode (a # b # rest) =
     (case unhex a of
        None \<Rightarrow> []
      | Some x \<Rightarrow> (case unhex b of None \<Rightarrow> [] | Some y \<Rightarrow> of_nat (16 * x + y) # hex_decode rest))"
| "hex_decode _ = []"

fun join_colon :: "string list \<Rightarrow> string" where
  "join_colon [] = []"
| "join_colon [s] = s"
| "join_colon (s # t # ss) = s @ '':'' @ join_colon (t # ss)"

definition mac_string :: "byte list \<Rightarrow> string option" where
  \<comment> \<open>\<open>macBytes.toString('hex').match(/.{2}/g)?.join(':')\<close>: no match on the empty string\<close>
  "mac_string macBytes =
     (if macBytes = [] then None
      else Some (join_colon (map (\<lambda>b. hex_of_bytes [b]) macBytes)))"

text \<open>The loop of lines 105 to 146, from the offset and the fields it holds.\<close>

function decodeShelly_blocks ::
  "byte list \<Rightarrow> nat \<Rightarrow> ShellyManufacturerData \<Rightarrow> error + ShellyManufacturerData" where
  "decodeShelly_blocks buf offset result =
     (if offset < length buf
      then (let blockType = unat (buf ! offset)
            in if blockType = 0x01
               then (case readUInt16LE buf (offset + 1) of
                       Inl e \<Rightarrow> Inl e
                     | Inr flagsRaw \<Rightarrow>
                         decodeShelly_blocks buf (offset + 1 + 2)
                           (result\<lparr>flags := Some
                              \<lparr>discoverable = (flagsRaw AND push_bit 0 1 \<noteq> 0),
                               authEnabled = (flagsRaw AND push_bit 1 1 \<noteq> 0),
                               rpcEnabled = (flagsRaw AND push_bit 2 1 \<noteq> 0),
                               buzzerEnabled = (flagsRaw AND push_bit 3 1 \<noteq> 0),
                               inPairingMode = (flagsRaw AND push_bit 4 1 \<noteq> 0)\<rparr>\<rparr>))
               else if blockType = 0x0b
               then (case readUInt16LE buf (offset + 1) of
                       Inl e \<Rightarrow> Inl e
                     | Inr model \<Rightarrow>
                         decodeShelly_blocks buf (offset + 1 + 2)
                           (result\<lparr>modelId := Some model,
                                   modelIdShortName := getShellyBluShortName model,
                                   modelIdLongName := getShellyBluLongName model\<rparr>))
               else if blockType = 0x0a
               then (let macBytes = slice buf (offset + 1) (offset + 1 + 6)
                     in decodeShelly_blocks buf (offset + 1 + 6)
                          (result\<lparr>mac := mac_string macBytes\<rparr>))
               else decodeShelly_blocks buf (length buf) result)
      else Inr result)"
  by pat_completeness auto
termination
  by (relation "measure (\<lambda>(buf, offset, result). length buf - offset)") auto

declare decodeShelly_blocks.simps [simp del]

definition decodeShellyManufacturerData ::
  "shelly_input \<Rightarrow> error + ShellyManufacturerData option" where
  \<comment> \<open>\<open>Inr None\<close> is the result \<open>null\<close>\<close>
  "decodeShellyManufacturerData input =
     (if input_length input < 10 then Inr None
      else (let buf = (case input of
                         Buffer b \<Rightarrow> b
                       | HexString s \<Rightarrow> hex_decode (filter (\<lambda>c. \<not> is_space c) s))
            in case readUInt16LE buf 0 of
                 Inl e \<Rightarrow> Inl e
               | Inr cid \<Rightarrow>
                   if cid \<noteq> 0x0ba9 then Inr None
                   else (case decodeShelly_blocks buf 2
                                 \<lparr>companyId = cid, flags = None, modelId = None,
                                  modelIdShortName = None, modelIdLongName = None, mac = None\<rparr> of
                           Inl e \<Rightarrow> Inl e
                         | Inr result \<Rightarrow> Inr (Some result))))"

section \<open>Buffers made of complete fields\<close>

text \<open>
  The claims speak of buffers that contain given object ids. A field is an id byte with
  the bytes of its value; its payload is complete when it has the width the table
  declares for the id or, for a length-prefixed id, a length byte followed by that many
  bytes. A buffer contains the fields \<open>fs\<close> when its bytes after the header are their
  concatenation.
\<close>

type_synonym field = "byte \<times> byte list"

definition payload_ok :: "BTHomeSpecEntry \<Rightarrow> byte list \<Rightarrow> bool" where
  "payload_ok spec p =
     (case bytes spec of
        Some n \<Rightarrow> length p = n
      | None \<Rightarrow> (case p of [] \<Rightarrow> False | len # body \<Rightarrow> length body = unat len))"

definition field_ok :: "field \<Rightarrow> bool" where
  "field_ok f =
     (case BTHOME_SPEC (unat (fst f)) of None \<Rightarrow> False | Some spec \<Rightarrow> payload_ok spec (snd f))"

definition encode_fields :: "field list \<Rightarrow> byte list" where
  "encode_fields fs = concat (map (\<lambda>f. fst f # snd f) fs)"

definition field_name :: "field \<Rightarrow> string option" where
  "field_name f = map_option name (BTHOME_SPEC (unat (fst f)))"

definition field_reading :: "field \<Rightarrow> (string \<times> jsval) option" where
  \<comment> \<open>the descriptor name of a field, and the value decoded from the field's own bytes alone\<close>
  "field_reading f =
     (case BTHOME_SPEC (unat (fst f)) of
        None \<Rightarrow> None
      | Some spec \<Rightarrow>
          (case field_value (snd f) 0 spec of
             Inl e \<Rightarrow> None
           | Inr r \<Rightarrow> Some (name spec, fst r)))"

definition payload_value :: "field \<Rightarrow> jsval option" where
  "payload_value f = map_option snd (field_reading f)"

fun run_fields :: "field list \<Rightarrow> nat list \<Rightarrow> (string \<times> jsval) list \<Rightarrow> (string \<times> jsval) list" where
  \<comment> \<open>the readings after the loop has gone through the fields, from the ids and readings before\<close>
  "run_fields [] ids rd = rd"
| "run_fields (f # fs) ids rd =
     (case field_reading f of
        None \<Rightarrow> rd
      | Some r \<Rightarrow>
          run_fields fs (ids @ [unat (fst f)])
            (store_reading (ids @ [unat (fst f)]) (unat (fst f)) (fst r) (snd r) rd))"

definition entry_ok :: "BTHomeSpecEntry \<Rightarrow> bool" where
  \<comment> \<open>what every entry of the table satisfies: a width that fits its decode path, a scale
      among those in use, and a name without a colon\<close>
  "entry_ok spec =
     (CHR '':'' \<notin> set (name spec) \<and>
      (case parser spec of
         None \<Rightarrow> bytes spec \<in> {Some 1, Some 2, Some 3, Some 4}
                  \<and> factor spec \<in> {Some 1, Some (1/10), Some (1/100), Some (1/1000), Some (35/100)}
       | Some TextParser \<Rightarrow> bytes spec = None
       | Some RawParser \<Rightarrow> bytes spec = None
       | Some ButtonParser \<Rightarrow> bytes spec = Some 1
       | Some DimmerParser \<Rightarrow> bytes spec = Some 2
       | Some TimestampParser \<Rightarrow> bytes spec = Some 4
       | Some FirmwareParser \<Rightarrow> bytes spec = Some 4
       | Some FirmwareShortParser \<Rightarrow> bytes spec = Some 3))"

text \<open>
  In the same way a vendor buffer contains blocks: a type byte 0x01 or 0x0B with two
  bytes, or 0x0A with six.
\<close>

definition block_ok :: "byte list \<Rightarrow> bool" where
  "block_ok blk =
     (case blk of
        [] \<Rightarrow> False
      | t # payload \<Rightarrow>
          (unat t = 0x01 \<and> length payload = 2) \<or> (unat t = 0x0b \<and> length payload = 2)
          \<or> (unat t = 0x0a \<and> length payload = 6))"

definition known_block_type :: "byte \<Rightarrow> bool" where
  "known_block_type t = (unat t = 0x01 \<or> unat t = 0x0b \<or> unat t = 0x0a)"

definition empty_result :: ShellyManufacturerData where
  \<comment> \<open>\<open>{ companyId }\<close> with the company identifier 0x0BA9\<close>
  "empty_result = \<lparr>companyId = 0x0ba9, flags = None, modelId = None,
                    modelIdShortName = None, modelIdLongName = None, mac = None\<rparr>"

definition block_result :: "byte list \<Rightarrow> ShellyManufacturerData \<Rightarrow> ShellyManufacturerData" where
  \<comment> \<open>the fields after the loop has gone through one block alone\<close>
  "block_result blk res = (case decodeShelly_blocks blk 0 res of Inl e \<Rightarrow> res | Inr r \<Rightarrow> r)"

section \<open>Properties of the table and of the reads\<close>

lemma spec_in_table: "BTHOME_SPEC oid = Some spec \<Longrightarrow> (oid, spec) \<in> set BTHOME_SPEC_entries"
  unfolding BTHOME_SPEC_def by (rule map_of_SomeD)

lemma entries_ok: "\<forall>e \<in> set BTHOME_SPEC_entries. entry_ok (snd e)"
  by (simp add: BTHOME_SPEC_entries_def entry_ok_def numeric_def parsed_def prefixed_def)

lemma table_entry_ok: "BTHOME_SPEC oid = Some spec \<Longrightarrow> entry_ok spec"
  using entries_ok spec_in_table by fastforce

lemma readUInt8_local:
  "k < length p \<Longrightarrow> readUInt8 (pre @ p @ post) (length pre + k) = Inr (unat (p ! k))"
  by (simp add: readUInt8_def nth_append)

lemma index_local:
  "k < length p \<Longrightarrow> index (pre @ p @ post) (length pre + k) = Some (unat (p ! k))"
  by (simp add: index_def nth_append)

lemma take_drop_local:
  "k + n \<le> length p \<Longrightarrow> take n (drop (length pre + k) (pre @ p @ post)) = take n (drop k p)"
  by (simp add: drop_append)

lemma slice_local:
  "b \<le> length p \<Longrightarrow> slice (pre @ p @ post) (length pre + a) (length pre + b) = slice p a b"
  by (simp add: slice_def drop_append)

lemma readUIntLE_local:
  "k + n \<le> length p \<Longrightarrow> readUIntLE (pre @ p @ post) (length pre + k) n = readUIntLE p k n"
  by (simp add: readUIntLE_def take_drop_local)

lemma readIntLE_local:
  "k + n \<le> length p \<Longrightarrow> readIntLE (pre @ p @ post) (length pre + k) n = readIntLE p k n"
  by (simp add: readIntLE_def take_drop_local)

lemma readUInt32LE_local:
  "k + 4 \<le> length p \<Longrightarrow> readUInt32LE (pre @ p @ post) (length pre + k) = readUInt32LE p k"
  by (simp add: readUInt32LE_def take_drop_local)

lemma prefixed_slice_local:
  "length body = unat len \<Longrightarrow>
   prefixed_slice (pre @ (len # body) @ post) (length pre) = body"
  by (simp add: prefixed_slice_def index_def slice_def nth_append)


lemma floor_rat_numeral_div: "\<lfloor>numeral a / numeral b :: rat\<rfloor> = numeral a div numeral b"
  by (metis floor_divide_of_int_eq of_int_numeral)

lemma fraction_digits_table:
  "fraction_digits 1 = Inr 0" "fraction_digits (1/10) = Inr 1" "fraction_digits (1/100) = Inr 2"
  "fraction_digits (1/1000) = Inr 3" "fraction_digits (35/100) = Inr 0"
  "fraction_digits (7/20) = Inr 0"
  by (simp_all add: fraction_digits_def trunc_log10_def ilog10.simps floor_rat_numeral_div)

lemma number_value_table:
  "\<exists>v. number_value raw 1 = Inr v" "\<exists>v. number_value raw (1/10) = Inr v"
  "\<exists>v. number_value raw (1/100) = Inr v" "\<exists>v. number_value raw (1/1000) = Inr v"
  "\<exists>v. number_value raw (35/100) = Inr v"
  by (simp_all add: number_value_def fraction_digits_table)

lemma number_value_ok:
  "f \<in> {1, 1/10, 1/100, 1/1000, 35/100} \<Longrightarrow> \<exists>v. number_value raw f = Inr v"
  using number_value_table [of raw] by blast

lemma le_value_bound: "le_value bs < 256 ^ length bs"
proof (induction bs)
  case Nil
  show ?case by simp
next
  case (Cons b bs)
  have "unat b < 256" using unsigned_less [of b] by simp
  with Cons show ?case by simp
qed

lemma toISOString_u32: "secs < 2 ^ 32 \<Longrightarrow> \<exists>s. toISOString (secs * 1000) = Inr s"
  by (simp add: toISOString_def Let_def split: prod.splits)

lemma readUInt32LE_ok:
  "4 \<le> length p \<Longrightarrow> \<exists>secs. readUInt32LE p 0 = Inr secs \<and> secs < 2 ^ 32"
proof -
  assume "4 \<le> length p"
  then have "length (take 4 p) = 4" by simp
  with le_value_bound [of "take 4 p"] have "le_value (take 4 p) < 2 ^ 32" by simp
  with \<open>4 \<le> length p\<close> show ?thesis by (simp add: readUInt32LE_def)
qed


lemma run_parser_local:
  assumes "payload_ok spec p" "parser spec = Some q" "entry_ok spec"
  shows "run_parser q (pre @ p @ post) (length pre) = run_parser q p 0"
proof (cases q)
  case TextParser
  with assms obtain len body where p: "p = len # body" "length body = unat len"
    by (auto simp: payload_ok_def entry_ok_def split: list.splits)
  show ?thesis
    using prefixed_slice_local [OF p(2), of pre post] prefixed_slice_local [OF p(2), of "[]" "[]"]
    by (simp add: run_parser_def TextParser p(1))
next
  case RawParser
  with assms obtain len body where p: "p = len # body" "length body = unat len"
    by (auto simp: payload_ok_def entry_ok_def split: list.splits)
  show ?thesis
    using prefixed_slice_local [OF p(2), of pre post] prefixed_slice_local [OF p(2), of "[]" "[]"]
    by (simp add: run_parser_def RawParser p(1))
next
  case ButtonParser
  with assms have "0 < length p" by (simp add: payload_ok_def entry_ok_def)
  then show ?thesis
    using readUInt8_local [of 0 p pre post] readUInt8_local [of 0 p "[]" "[]"]
    by (simp add: run_parser_def ButtonParser)
next
  case DimmerParser
  with assms have l: "0 < length p" "1 < length p" by (simp_all add: payload_ok_def entry_ok_def)
  show ?thesis
    using readUInt8_local [OF l(1), of pre post] readUInt8_local [OF l(1), of "[]" "[]"]
      readUInt8_local [OF l(2), of pre post] readUInt8_local [OF l(2), of "[]" "[]"]
    by (simp add: run_parser_def DimmerParser)
next
  case TimestampParser
  with assms have "4 \<le> length p" by (simp add: payload_ok_def entry_ok_def)
  then show ?thesis
    using readUInt32LE_local [of 0 p pre post]
    by (simp add: run_parser_def TimestampParser)
next
  case FirmwareParser
  with assms have "4 \<le> length p" by (simp add: payload_ok_def entry_ok_def)
  then show ?thesis
    using slice_local [of 4 p pre post 0] slice_local [of 4 p "[]" "[]" 0]
    by (simp add: run_parser_def FirmwareParser)
next
  case FirmwareShortParser
  with assms have "3 \<le> length p" by (simp add: payload_ok_def entry_ok_def)
  then show ?thesis
    using slice_local [of 3 p pre post 0] slice_local [of 3 p "[]" "[]" 0]
    by (simp add: run_parser_def FirmwareShortParser)
qed

lemma run_parser_ok:
  assumes "payload_ok spec p" "parser spec = Some q" "entry_ok spec"
  shows "\<exists>v. run_parser q p 0 = Inr v"
proof (cases q)
  case ButtonParser
  with assms have "0 < length p" by (simp add: payload_ok_def entry_ok_def)
  then show ?thesis by (simp add: run_parser_def ButtonParser readUInt8_def)
next
  case DimmerParser
  with assms have l: "length p = 2" by (simp_all add: payload_ok_def entry_ok_def)
  show ?thesis by (simp add: run_parser_def DimmerParser readUInt8_def l)
next
  case TimestampParser
  with assms have "4 \<le> length p" by (simp add: payload_ok_def entry_ok_def)
  from readUInt32LE_ok [OF this] obtain secs where "readUInt32LE p 0 = Inr secs" "secs < 2 ^ 32"
    by blast
  with toISOString_u32 [of secs] show ?thesis
    by (auto simp add: run_parser_def TimestampParser)
qed (simp_all add: run_parser_def Let_def)

section \<open>The loop on a buffer of complete fields\<close>

lemma entry_ok_genericD:
  "entry_ok spec \<Longrightarrow> parser spec = None \<Longrightarrow>
   \<exists>n f. bytes spec = Some n \<and> factor spec = Some f \<and> f \<in> {1, 1/10, 1/100, 1/1000, 35/100}"
  unfolding entry_ok_def by (cases "bytes spec"; cases "factor spec") auto

lemma field_value_generic:
  assumes "parser spec = None" "entry_ok spec" "payload_ok spec p"
  shows "\<exists>v. field_value p 0 spec = Inr (v, length p)
           \<and> field_value (pre @ p @ post) (length pre) spec = Inr (v, length pre + length p)"
proof -
  from entry_ok_genericD [OF assms(2,1)] obtain n f where n0: "bytes spec = Some n"
    and f: "factor spec = Some f" "f \<in> {1, 1/10, 1/100, 1/1000, 35/100}"
    by blast
  from n0 assms(3) have n: "bytes spec = Some n" "length p = n"
    by (simp_all add: payload_ok_def)
  let ?rd = "\<lambda>b off. if signed_flag spec then readIntLE b off n else readUIntLE b off n"
  have loc: "?rd (pre @ p @ post) (length pre) = ?rd p 0"
    using readIntLE_local [of 0 n p pre post] readUIntLE_local [of 0 n p pre post] n by simp
  have "\<exists>raw. ?rd p 0 = Inr raw"
    using n by (simp add: readIntLE_def readUIntLE_def Let_def)
  then obtain raw where raw: "?rd p 0 = Inr raw" by blast
  obtain v where v: "number_value raw f = Inr v"
    using number_value_ok [OF f(2)] by blast
  show ?thesis
    using assms(1) n f(1) loc raw v by (simp add: field_value_def)
qed

lemma field_value_parsed:
  assumes "parser spec = Some q" "entry_ok spec" "payload_ok spec p"
  shows "\<exists>v. field_value p 0 spec = Inr (v, length p)
           \<and> field_value (pre @ p @ post) (length pre) spec = Inr (v, length pre + length p)"
proof -
  obtain v where v: "run_parser q p 0 = Inr v"
    using run_parser_ok [OF assms(3,1,2)] by blast
  have loc: "run_parser q (pre @ p @ post) (length pre) = Inr v"
    using run_parser_local [OF assms(3,1,2)] v by simp
  show ?thesis
  proof (cases "bytes spec")
    case (Some n)
    with assms(3) have "length p = n" by (simp add: payload_ok_def)
    with Some assms(1) v loc show ?thesis by (simp add: field_value_def)
  next
    case None
    with assms(3) obtain len body where p: "p = len # body" "length body = unat len"
      by (auto simp: payload_ok_def split: list.splits)
    have r: "readUInt8 p 0 = Inr (unat len)" "readUInt8 (pre @ p @ post) (length pre) = Inr (unat len)"
      using p readUInt8_local [of 0 p pre post] by (simp_all add: readUInt8_def)
    from None assms(1) v loc r p show ?thesis by (simp add: field_value_def)
  qed
qed

lemma field_value_complete:
  assumes "entry_ok spec" "payload_ok spec p"
  shows "\<exists>v. field_value p 0 spec = Inr (v, length p)
           \<and> field_value (pre @ p @ post) (length pre) spec = Inr (v, length pre + length p)"
  using assms field_value_generic field_value_parsed by (cases "parser spec") blast+

lemma decode_loop_unfold:
  "decode_loop buf offset ids rd unk =
     (if offset < length buf
      then (case BTHOME_SPEC (unat (buf ! offset)) of
                 None \<Rightarrow> Inr (rd, unk @ [unknown_entry (unat (buf ! offset)) (drop offset buf)])
               | Some spec \<Rightarrow>
                   (case field_value buf (offset + 1) spec of
                      Inl e \<Rightarrow> Inl e
                    | Inr p \<Rightarrow>
                        decode_loop buf (snd p) (ids @ [unat (buf ! offset)])
                          (store_reading (ids @ [unat (buf ! offset)]) (unat (buf ! offset))
                             (name spec) (fst p) rd) unk))
      else Inr (rd, unk))"
  by (subst decode_loop.simps) (simp add: Let_def split: option.splits sum.splits prod.splits)

lemma field_ok_reading:
  assumes "field_ok f"
  shows "\<exists>spec v. BTHOME_SPEC (unat (fst f)) = Some spec \<and> entry_ok spec
           \<and> payload_ok spec (snd f) \<and> field_reading f = Some (name spec, v)
           \<and> (\<forall>pre post. field_value (pre @ snd f @ post) (length pre) spec
                   = Inr (v, length pre + length (snd f)))"
proof -
  from assms obtain spec where s: "BTHOME_SPEC (unat (fst f)) = Some spec" "payload_ok spec (snd f)"
    by (auto simp: field_ok_def split: option.splits)
  have ok: "entry_ok spec" using s(1) by (rule table_entry_ok)
  from field_value_complete [OF ok s(2), of "[]" "[]"] obtain v
    where v: "field_value (snd f) 0 spec = Inr (v, length (snd f))" by auto
  have loc: "field_value (pre @ snd f @ post) (length pre) spec = Inr (v, length pre + length (snd f))"
    for pre post
    using field_value_complete [OF ok s(2), of pre post] v by auto
  have fr: "field_reading f = Some (name spec, v)"
    using s(1) v by (simp add: field_reading_def)
  from s ok fr loc show ?thesis by blast
qed

lemma decode_loop_field:
  assumes "field_ok f"
  shows "decode_loop (pre @ (fst f # snd f) @ post) (length pre) ids rd unk =
         decode_loop (pre @ (fst f # snd f) @ post) (length pre + length (fst f # snd f))
           (ids @ [unat (fst f)])
           (store_reading (ids @ [unat (fst f)]) (unat (fst f))
              (fst (the (field_reading f))) (snd (the (field_reading f))) rd) unk"
proof -
  from field_ok_reading [OF assms] obtain spec v where s: "BTHOME_SPEC (unat (fst f)) = Some spec"
    "field_reading f = Some (name spec, v)"
    and loc: "\<forall>pre post. field_value (pre @ snd f @ post) (length pre) spec
                   = Inr (v, length pre + length (snd f))"
    by blast
  have fv: "field_value (pre @ fst f # snd f @ post) (Suc (length pre)) spec
            = Inr (v, Suc (length pre + length (snd f)))"
    using loc [rule_format, of "pre @ [fst f]" post] by simp
  show ?thesis
    by (subst decode_loop_unfold) (simp add: s fv nth_append)
qed

lemma decode_loop_fields:
  assumes "\<forall>f \<in> set fs. field_ok f"
  shows "decode_loop (pre @ encode_fields fs @ post) (length pre) ids rd unk =
         decode_loop (pre @ encode_fields fs @ post) (length pre + length (encode_fields fs))
           (ids @ map (\<lambda>f. unat (fst f)) fs) (run_fields fs ids rd) unk"
  using assms
proof (induction fs arbitrary: pre ids rd)
  case Nil
  show ?case by (simp add: encode_fields_def)
next
  case (Cons f fs)
  then have ok: "field_ok f" and oks: "\<forall>f \<in> set fs. field_ok f" by simp_all
  from field_ok_reading [OF ok] obtain spec :: BTHomeSpecEntry and v
    where r: "field_reading f = Some (name spec, v)"
    by blast
  have enc: "encode_fields (f # fs) = (fst f # snd f) @ encode_fields fs"
    by (simp add: encode_fields_def)
  have "decode_loop (pre @ encode_fields (f # fs) @ post) (length pre) ids rd unk =
        decode_loop ((pre @ (fst f # snd f)) @ encode_fields fs @ post) (length (pre @ (fst f # snd f)))
          (ids @ [unat (fst f)]) (store_reading (ids @ [unat (fst f)]) (unat (fst f)) (name spec) v rd) unk"
    using decode_loop_field [OF ok, of pre "encode_fields fs @ post" ids rd unk]
    by (simp add: enc r)
  also have "\<dots> = decode_loop ((pre @ (fst f # snd f)) @ encode_fields fs @ post)
          (length (pre @ (fst f # snd f)) + length (encode_fields fs))
          ((ids @ [unat (fst f)]) @ map (\<lambda>f. unat (fst f)) fs)
          (run_fields fs (ids @ [unat (fst f)])
             (store_reading (ids @ [unat (fst f)]) (unat (fst f)) (name spec) v rd)) unk"
    by (rule Cons.IH [OF oks])
  finally show ?case by (simp add: enc r add.assoc)
qed

lemma decode_loop_end:
  "length buf \<le> offset \<Longrightarrow> decode_loop buf offset ids rd unk = Inr (rd, unk)"
  by (subst decode_loop.simps) simp

lemma decode_loop_unknown:
  "offset < length buf \<Longrightarrow> BTHOME_SPEC (unat (buf ! offset)) = None \<Longrightarrow>
   decode_loop buf offset ids rd unk
     = Inr (rd, unk @ [unknown_entry (unat (buf ! offset)) (drop offset buf)])"
  by (subst decode_loop.simps) (simp add: Let_def)

lemma decodeBTHome_fields:
  assumes "\<forall>f \<in> set fs. field_ok f"
  shows "decodeBTHome (h # encode_fields fs) =
           Inr \<lparr>version = drop_bit 5 (unat h) AND 7, encrypted = (unat h AND 1 \<noteq> 0),
                trigger = (unat h AND 4 \<noteq> 0), readings = run_fields fs [] [], unknown = []\<rparr>"
  using decode_loop_fields [OF assms, of "[h]" "[]" "[]" "[]" "[]"]
  by (simp add: decodeBTHome_def readUInt8_def decode_loop_end)

lemma decodeBTHome_fields_unknown:
  assumes "\<forall>f \<in> set fs. field_ok f" "BTHOME_SPEC (unat u) = None"
  shows "decodeBTHome (h # encode_fields fs @ u # t) =
           Inr \<lparr>version = drop_bit 5 (unat h) AND 7, encrypted = (unat h AND 1 \<noteq> 0),
                trigger = (unat h AND 4 \<noteq> 0), readings = run_fields fs [] [],
                unknown = [unknown_entry (unat u) (u # t)]\<rparr>"
proof -
  have "decode_loop ([h] @ encode_fields fs @ u # t) (length [h] + length (encode_fields fs))
          ([] @ map (\<lambda>f. unat (fst f)) fs) (run_fields fs [] []) []
        = Inr (run_fields fs [] [], [] @ [unknown_entry (unat u) (u # t)])"
    by (subst decode_loop_unknown) (simp_all add: nth_append assms(2))
  with decode_loop_fields [OF assms(1), of "[h]" "u # t" "[]" "[]" "[]"]
  show ?thesis
    by (simp add: decodeBTHome_def readUInt8_def)
qed

section \<open>The readings as a map\<close>

lemma map_of_store_reading:
  "map_of (store_reading ids oid nm v rd) =
     (if 1 < length (filter (\<lambda>e. e = oid) ids)
      then (case map_of rd nm of
              Some old \<Rightarrow> ((map_of rd)(nm @ '':1'' \<mapsto> old))(nm := None)
            | None \<Rightarrow> map_of rd)
           (nm @ '':'' @ dec_string (length (filter (\<lambda>e. e = oid) ids)) \<mapsto> v)
      else (map_of rd)(nm \<mapsto> v))"
  by (simp add: store_reading_def Let_def update_conv' delete_conv' split: option.splits)

lemma colon_key_neq: "CHR '':'' \<notin> set n \<Longrightarrow> n \<noteq> m @ '':'' @ s"
  by auto

lemma colon_key_inj:
  "CHR '':'' \<notin> set n \<Longrightarrow> CHR '':'' \<notin> set m \<Longrightarrow> n @ '':'' @ s = m @ '':'' @ t \<Longrightarrow> n = m"
proof (induction n arbitrary: m)
  case Nil
  then show ?case by (cases m) auto
next
  case (Cons c n)
  then show ?case by (cases m) auto
qed

lemma store_reading_frame:
  assumes "CHR '':'' \<notin> set n" "CHR '':'' \<notin> set nm" "nm \<noteq> n"
  shows "map_of (store_reading ids oid nm v rd) n = map_of rd n"
    and "map_of (store_reading ids oid nm v rd) (n @ '':'' @ s) = map_of rd (n @ '':'' @ s)"
proof -
  have a: "n \<noteq> nm @ '':'' @ t" for t using assms(1) by (rule colon_key_neq)
  have b: "n @ '':'' @ s \<noteq> nm" using colon_key_neq [OF assms(2), of n s] by simp
  have c: "n @ '':'' @ s \<noteq> nm @ '':'' @ t" for t
    using colon_key_inj [OF assms(1,2), of s t] assms(3) by auto
  have a1: "n \<noteq> nm @ '':1''" using a [of "''1''"] by simp
  have c1: "n @ '':'' @ s \<noteq> nm @ '':1''" using c [of "''1''"] by simp
  show "map_of (store_reading ids oid nm v rd) n = map_of rd n"
    using a a1 assms(3) by (simp add: map_of_store_reading split: option.splits)
  show "map_of (store_reading ids oid nm v rd) (n @ '':'' @ s) = map_of rd (n @ '':'' @ s)"
    using b c c1 by (simp add: map_of_store_reading split: option.splits)
qed

lemma field_name_reading:
  "field_reading f = Some r \<Longrightarrow> field_name f = Some (fst r)"
  by (auto simp: field_reading_def field_name_def split: option.splits sum.splits)

lemma run_fields_frame:
  assumes "\<forall>f \<in> set fs. field_ok f \<and> field_name f \<noteq> Some n" "CHR '':'' \<notin> set n"
  shows "map_of (run_fields fs ids rd) n = map_of rd n
       \<and> map_of (run_fields fs ids rd) (n @ '':'' @ s) = map_of rd (n @ '':'' @ s)"
  using assms(1)
proof (induction fs arbitrary: ids rd)
  case Nil
  show ?case by simp
next
  case (Cons f fs)
  then have ok: "field_ok f" and ne: "field_name f \<noteq> Some n" by simp_all
  from field_ok_reading [OF ok] obtain spec v where
    r: "field_reading f = Some (name spec, v)" and e: "entry_ok spec" by blast
  from e have col: "CHR '':'' \<notin> set (name spec)" by (simp add: entry_ok_def)
  from r ne have nn: "name spec \<noteq> n" using field_name_reading [OF r] by auto
  show ?case
    using Cons.IH [of "ids @ [unat (fst f)]"] Cons.prems
      store_reading_frame [OF assms(2) col nn]
    by (simp add: r)
qed

lemma run_fields_append:
  assumes "\<forall>f \<in> set xs. field_ok f"
  shows "run_fields (xs @ ys) ids rd
         = run_fields ys (ids @ map (\<lambda>f. unat (fst f)) xs) (run_fields xs ids rd)"
  using assms
proof (induction xs arbitrary: ids rd)
  case Nil
  show ?case by simp
next
  case (Cons f xs)
  from field_ok_reading [of f] Cons.prems obtain r where "field_reading f = Some r" by auto
  with Cons show ?case by simp
qed

lemma same_id_same_name: "fst f = fst g \<Longrightarrow> field_name f = field_name g"
  by (simp add: field_name_def)

lemma count_other_ids:
  assumes "\<forall>f \<in> set fs. field_name f \<noteq> Some n" "field_name g = Some n"
  shows "filter (\<lambda>e. e = unat (fst g)) (map (\<lambda>f. unat (fst f)) fs) = []"
proof -
  have "unat (fst f) \<noteq> unat (fst g)" if "f \<in> set fs" for f
  proof
    assume "unat (fst f) = unat (fst g)"
    then have "field_name f = field_name g" by (simp add: field_name_def)
    with assms that show False by auto
  qed
  then show ?thesis by (auto simp: filter_empty_conv)
qed

subsection \<open>Two fields with the same name\<close>

lemma dec_string_small: "dec_string (Suc 0) = ''1''" "dec_string (Suc (Suc 0)) = ''2''"
  by (simp_all add: dec_string_def radix_string.simps digit_char_def)

lemma run_fields_two:
  assumes ok: "\<forall>f \<in> set (A @ [f1] @ B @ [f2] @ C). field_ok f"
    and r1: "field_reading f1 = Some (n1, v1)" and r2: "field_reading f2 = Some (n2, v2)"
  shows "run_fields (A @ [f1] @ B @ [f2] @ C) [] [] =
         run_fields C (map (\<lambda>f. unat (fst f)) (A @ [f1] @ B @ [f2]))
           (store_reading (map (\<lambda>f. unat (fst f)) (A @ [f1] @ B @ [f2])) (unat (fst f2)) n2 v2
              (run_fields B (map (\<lambda>f. unat (fst f)) (A @ [f1]))
                 (store_reading (map (\<lambda>f. unat (fst f)) (A @ [f1])) (unat (fst f1)) n1 v1
                    (run_fields A [] []))))"
proof -
  from ok have okA: "\<forall>f \<in> set A. field_ok f" and okB: "\<forall>f \<in> set B. field_ok f" by simp_all
  have "run_fields (A @ [f1] @ B @ [f2] @ C) [] [] =
        run_fields (f1 # (B @ [f2] @ C)) (map (\<lambda>f. unat (fst f)) A) (run_fields A [] [])"
    using run_fields_append [OF okA, of "[f1] @ B @ [f2] @ C" "[]" "[]"] by simp
  also have "\<dots> = run_fields (B @ (f2 # C)) (map (\<lambda>f. unat (fst f)) (A @ [f1]))
                     (store_reading (map (\<lambda>f. unat (fst f)) (A @ [f1])) (unat (fst f1)) n1 v1
                        (run_fields A [] []))"
    by (simp add: r1)
  also have "\<dots> = run_fields (f2 # C) (map (\<lambda>f. unat (fst f)) (A @ [f1]) @ map (\<lambda>f. unat (fst f)) B)
                     (run_fields B (map (\<lambda>f. unat (fst f)) (A @ [f1]))
                        (store_reading (map (\<lambda>f. unat (fst f)) (A @ [f1])) (unat (fst f1)) n1 v1
                           (run_fields A [] [])))"
    by (rule run_fields_append [OF okB])
  finally show ?thesis by (simp add: r2)
qed

lemma repeated_id_map:
  assumes ok: "\<forall>f \<in> set (A @ [(b, p1)] @ B @ [(b, p2)] @ C). field_ok f"
    and nm: "field_name (b, p1) = Some n"
    and others: "\<forall>f \<in> set (A @ B @ C). field_name f \<noteq> Some n"
  shows "map_of (run_fields (A @ [(b, p1)] @ B @ [(b, p2)] @ C) [] []) (n @ '':1'') = payload_value (b, p1)
       \<and> map_of (run_fields (A @ [(b, p1)] @ B @ [(b, p2)] @ C) [] []) (n @ '':2'') = payload_value (b, p2)
       \<and> map_of (run_fields (A @ [(b, p1)] @ B @ [(b, p2)] @ C) [] []) n = None
       \<and> payload_value (b, p1) \<noteq> None \<and> payload_value (b, p2) \<noteq> None"
proof -
  let ?ids = "map (\<lambda>f. unat (fst f))"
  from ok have ok1: "field_ok (b, p1)" and ok2: "field_ok (b, p2)" by simp_all
  from field_ok_reading [OF ok1] nm obtain spec v1 where
    r1: "field_reading (b, p1) = Some (n, v1)" and e: "entry_ok spec" and n: "name spec = n"
    by (auto simp: field_name_def)
  from field_ok_reading [OF ok2] nm obtain v2 where
    r2: "field_reading (b, p2) = Some (n, v2)"
    by (auto simp: field_name_def)
  from e n have col: "CHR '':'' \<notin> set n" by (auto simp: entry_ok_def)
  have frA: "\<forall>f \<in> set A. field_ok f \<and> field_name f \<noteq> Some n"
    and frB: "\<forall>f \<in> set B. field_ok f \<and> field_name f \<noteq> Some n"
    and frC: "\<forall>f \<in> set C. field_ok f \<and> field_name f \<noteq> Some n"
    using ok others by auto
  have cA: "filter (\<lambda>e. e = unat b) (?ids A) = []"
    using count_other_ids [of A n "(b, p1)"] frA nm by simp
  have cB: "filter (\<lambda>e. e = unat b) (?ids B) = []"
    using count_other_ids [of B n "(b, p1)"] frB nm by simp
  define rdA where "rdA = run_fields A [] []"
  define rd1 where "rd1 = store_reading (?ids (A @ [(b, p1)])) (unat b) n v1 rdA"
  define rdB where "rdB = run_fields B (?ids (A @ [(b, p1)])) rd1"
  define rd2 where "rd2 = store_reading (?ids (A @ [(b, p1)] @ B @ [(b, p2)])) (unat b) n v2 rdB"
  define rdC where "rdC = run_fields C (?ids (A @ [(b, p1)] @ B @ [(b, p2)])) rd2"
  have final: "run_fields (A @ [(b, p1)] @ B @ [(b, p2)] @ C) [] [] = rdC"
    using run_fields_two [OF ok r1 r2] by (simp add: rdC_def rd2_def rdB_def rd1_def rdA_def)
  have A0: "map_of rdA n = None" "\<And>s. map_of rdA (n @ '':'' @ s) = None"
    using run_fields_frame [OF frA col, of "[]" "[]"] by (simp_all add: rdA_def)
  have m1: "map_of rd1 = (map_of rdA)(n \<mapsto> v1)"
    by (simp add: rd1_def map_of_store_reading cA)
  have B0: "map_of rdB n = Some v1" "\<And>s. map_of rdB (n @ '':'' @ s) = None"
    using run_fields_frame [OF frB col, of "?ids (A @ [(b, p1)])" rd1] A0 m1
    by (simp_all add: rdB_def)
  have m2: "map_of rd2 = ((map_of rdB)(n @ '':1'' \<mapsto> v1, n := None))(n @ '':2'' \<mapsto> v2)"
    using B0(1) by (simp add: rd2_def map_of_store_reading cA cB dec_string_small)
  have k: "n @ '':1'' \<noteq> n @ '':2''" "n \<noteq> n @ '':1''" "n \<noteq> n @ '':2''" by simp_all
  have C1: "map_of rdC (n @ '':1'') = Some v1"
    using run_fields_frame [OF frC col, of "?ids (A @ [(b, p1)] @ B @ [(b, p2)])" rd2 "''1''"] m2 k
    by (simp add: rdC_def)
  have C2: "map_of rdC (n @ '':2'') = Some v2"
    using run_fields_frame [OF frC col, of "?ids (A @ [(b, p1)] @ B @ [(b, p2)])" rd2 "''2''"] m2 k
    by (simp add: rdC_def)
  have C0: "map_of rdC n = None"
    using run_fields_frame [OF frC col, of "?ids (A @ [(b, p1)] @ B @ [(b, p2)])" rd2] m2 k
    by (simp add: rdC_def)
  show ?thesis
    using C0 C1 C2 final by (simp add: payload_value_def r1 r2)
qed

lemma shared_name_map:
  assumes ok: "\<forall>f \<in> set (A @ [(a, p)] @ B @ [(b, q)] @ C). field_ok f"
    and ab: "a \<noteq> b"
    and nma: "field_name (a, p) = Some n" and nmb: "field_name (b, q) = Some n"
    and others: "\<forall>f \<in> set (A @ B @ C). field_name f \<noteq> Some n"
  shows "map_of (run_fields (A @ [(a, p)] @ B @ [(b, q)] @ C) [] []) n = payload_value (b, q)
       \<and> payload_value (b, q) \<noteq> None
       \<and> (\<forall>s. map_of (run_fields (A @ [(a, p)] @ B @ [(b, q)] @ C) [] []) (n @ '':'' @ s) = None)"
proof -
  let ?ids = "map (\<lambda>f. unat (fst f))"
  from ok have ok1: "field_ok (a, p)" and ok2: "field_ok (b, q)" by simp_all
  from field_ok_reading [OF ok1] nma obtain spec v1 where
    r1: "field_reading (a, p) = Some (n, v1)" and e: "entry_ok spec" and n: "name spec = n"
    by (auto simp: field_name_def)
  from field_ok_reading [OF ok2] nmb obtain v2 where
    r2: "field_reading (b, q) = Some (n, v2)"
    by (auto simp: field_name_def)
  from e n have col: "CHR '':'' \<notin> set n" by (auto simp: entry_ok_def)
  have frA: "\<forall>f \<in> set A. field_ok f \<and> field_name f \<noteq> Some n"
    and frB: "\<forall>f \<in> set B. field_ok f \<and> field_name f \<noteq> Some n"
    and frC: "\<forall>f \<in> set C. field_ok f \<and> field_name f \<noteq> Some n"
    using ok others by auto
  have ne: "unat a \<noteq> unat b" using ab by (simp add: word_unat_eq_iff)
  have cAa: "filter (\<lambda>e. e = unat a) (?ids A) = []"
    using count_other_ids [of A n "(a, p)"] frA nma by simp
  have cAb: "filter (\<lambda>e. e = unat b) (?ids A) = []"
    using count_other_ids [of A n "(b, q)"] frA nmb by simp
  have cBb: "filter (\<lambda>e. e = unat b) (?ids B) = []"
    using count_other_ids [of B n "(b, q)"] frB nmb by simp
  define rdA where "rdA = run_fields A [] []"
  define rd1 where "rd1 = store_reading (?ids (A @ [(a, p)])) (unat a) n v1 rdA"
  define rdB where "rdB = run_fields B (?ids (A @ [(a, p)])) rd1"
  define rd2 where "rd2 = store_reading (?ids (A @ [(a, p)] @ B @ [(b, q)])) (unat b) n v2 rdB"
  define rdC where "rdC = run_fields C (?ids (A @ [(a, p)] @ B @ [(b, q)])) rd2"
  have final: "run_fields (A @ [(a, p)] @ B @ [(b, q)] @ C) [] [] = rdC"
    using run_fields_two [OF ok r1 r2] by (simp add: rdC_def rd2_def rdB_def rd1_def rdA_def)
  have A0: "\<And>s. map_of rdA (n @ '':'' @ s) = None"
    using run_fields_frame [OF frA col, of "[]" "[]"] by (simp_all add: rdA_def)
  have m1: "map_of rd1 = (map_of rdA)(n \<mapsto> v1)"
    by (simp add: rd1_def map_of_store_reading cAa)
  have B0: "\<And>s. map_of rdB (n @ '':'' @ s) = None"
    using run_fields_frame [OF frB col, of "?ids (A @ [(a, p)])" rd1] A0 m1
    by (simp_all add: rdB_def)
  have m2: "map_of rd2 = (map_of rdB)(n \<mapsto> v2)"
    using ne by (simp add: rd2_def map_of_store_reading cAb cBb)
  have C0: "map_of rdC n = Some v2"
    using run_fields_frame [OF frC col, of "?ids (A @ [(a, p)] @ B @ [(b, q)])" rd2] m2
    by (simp add: rdC_def)
  have C1: "map_of rdC (n @ '':'' @ s) = None" for s
    using run_fields_frame [OF frC col, of "?ids (A @ [(a, p)] @ B @ [(b, q)])" rd2 s] m2 B0 [of s]
    by (simp add: rdC_def)
  show ?thesis
    using C0 C1 final by (simp add: payload_value_def r2)
qed

section \<open>The header byte\<close>

lemma reads_tail:
  "readUInt8 (h # rest) (Suc off) = readUInt8 rest off"
  "readUIntLE (h # rest) (Suc off) n = readUIntLE rest off n"
  "readIntLE (h # rest) (Suc off) n = readIntLE rest off n"
  "readUInt32LE (h # rest) (Suc off) = readUInt32LE rest off"
  "index (h # rest) (Suc off) = index rest off"
  "slice (h # rest) (Suc off) (Suc off + k) = slice rest off (off + k)"
  by (simp_all add: readUInt8_def readUIntLE_def readIntLE_def readUInt32LE_def index_def slice_def)

lemma prefixed_slice_tail: "prefixed_slice (h # rest) (Suc off) = prefixed_slice rest off"
  by (simp add: prefixed_slice_def reads_tail(5) slice_def split: option.splits)

lemma run_parser_tail: "run_parser p (h # rest) (Suc off) = run_parser p rest off"
  using reads_tail(6) [of h rest off 4] reads_tail(6) [of h rest off 3]
    reads_tail(1) [of h rest "Suc off"]
  by (cases p) (simp_all add: run_parser_def reads_tail(1,4) prefixed_slice_tail cong: sum.case_cong)

lemma field_value_tail:
  "field_value (h # rest) (Suc off) spec = field_value (h' # rest) (Suc off) spec"
  by (cases "parser spec"; cases "bytes spec"; cases "signed_flag spec")
     (simp_all add: field_value_def run_parser_tail reads_tail(1,2,3) cong: sum.case_cong)

lemma field_value_advances:
  "field_value buf offset spec = Inr (v, offset') \<Longrightarrow> offset \<le> offset'"
  by (auto simp: field_value_def split: option.splits sum.splits if_splits)

lemma decode_loop_tail:
  "decode_loop (h # rest) (Suc k) ids rd unk = decode_loop (h' # rest) (Suc k) ids rd unk"
proof (induction "length rest - k" arbitrary: k ids rd unk rule: less_induct)
  case less
  show ?case
  proof (cases "k < length rest")
    case False
    then show ?thesis by (simp add: decode_loop_end)
  next
    case True
    show ?thesis
    proof (cases "BTHOME_SPEC (unat (rest ! k))")
      case None
      with True show ?thesis
        by (simp add: decode_loop_unknown)
    next
      case (Some spec)
      have fv: "field_value (h # rest) (Suc (Suc k)) spec = field_value (h' # rest) (Suc (Suc k)) spec"
        by (rule field_value_tail)
      show ?thesis
      proof (cases "field_value (h' # rest) (Suc (Suc k)) spec")
        case (Inl e)
        show ?thesis
          by (subst (1 2) decode_loop_unfold) (simp add: True Some fv Inl)
      next
        case (Inr r)
        obtain v offset' where r: "r = (v, offset')" by (cases r)
        from field_value_advances [of "h' # rest" "Suc (Suc k)" spec v offset'] Inr r
        obtain j where j: "offset' = Suc j" "k < j" by (cases offset') auto
        have "length rest - j < length rest - k" using True j by simp
        from less [OF this]
        have "decode_loop (h # rest) (Suc j) ids' rd' unk = decode_loop (h' # rest) (Suc j) ids' rd' unk"
          for ids' rd' .
        then show ?thesis
          by (subst (1 2) decode_loop_unfold) (simp add: True Some fv Inr r j)
      qed
    qed
  qed
qed

lemma header_version: "drop_bit 5 (unat (h :: byte)) AND 7 = unat (drop_bit 5 h)"
proof -
  have "unat h < 256" using unsigned_less [of h] by simp
  then have "unat h div 32 < 8" by simp
  then have "take_bit 3 (drop_bit 5 (unat h)) = drop_bit 5 (unat h)"
    by (simp add: take_bit_nat_eq_self drop_bit_eq_div)
  then show ?thesis
    by (simp add: take_bit_eq_mask mask_numeral unat_drop_bit_eq)
qed

lemma header_encrypted: "(unat (h :: byte) AND 1 \<noteq> 0) = bit h 0"
proof -
  have "(unat h AND 1 \<noteq> 0) = bit (unat h) 0"
    by (auto simp: and_one_eq bit_0 odd_iff_mod_2_eq_one)
  then show ?thesis by (simp add: bit_unsigned_iff)
qed

lemma header_trigger: "(unat (h :: byte) AND 4 \<noteq> 0) = bit h 2"
  using and_exp_eq_0_iff_not_bit [of "unat h" 2] by (simp add: bit_unsigned_iff)

lemma header_mask:
  "drop_bit 5 (unat (h AND 0xE5 :: byte)) AND 7 = drop_bit 5 (unat h) AND 7"
  "unat (h AND 0xE5 :: byte) AND 1 = unat h AND 1"
  "unat (h AND 0xE5 :: byte) AND 4 = unat h AND 4"
proof -
  have u: "unat (h AND 0xE5) = unat h AND 229" by (simp add: unsigned_and_eq)
  have c: "drop_bit 5 (229 :: nat) AND 7 = 7" "(229 :: nat) AND 1 = 1" "(229 :: nat) AND 4 = 4"
    by (simp_all add: drop_bit_eq_div)
  show "drop_bit 5 (unat (h AND 0xE5 :: byte)) AND 7 = drop_bit 5 (unat h) AND 7"
    unfolding u drop_bit_and and.assoc c ..
  show "unat (h AND 0xE5 :: byte) AND 1 = unat h AND 1"
    unfolding u and.assoc c ..
  show "unat (h AND 0xE5 :: byte) AND 4 = unat h AND 4"
    unfolding u and.assoc c ..
qed

lemma readUInt8_head: "readUInt8 (h # rest) 0 = Inr (unat h)"
  by (simp add: readUInt8_def)

lemma decodeBTHome_mask: "decodeBTHome ((h AND 0xE5) # rest) = decodeBTHome (h # rest)"
proof -
  have l: "decode_loop ((h AND 0xE5) # rest) 1 [] [] [] = decode_loop (h # rest) 1 [] [] []"
    using decode_loop_tail [of "h AND 0xE5" rest 0 "[]" "[]" "[]" h] by simp
  show ?thesis
    unfolding decodeBTHome_def readUInt8_head l sum.case header_mask ..
qed

section \<open>The errors of the decoder\<close>

lemma run_parser_error: "run_parser p buf off = Inl e \<Longrightarrow> e = RangeError"
  by (cases p)
     (auto simp: run_parser_def readUInt8_def readUInt32LE_def toISOString_def Let_def
           split: sum.splits if_splits prod.splits)

lemma number_value_error: "number_value raw f = Inl e \<Longrightarrow> e = RangeError"
  by (auto simp: number_value_def fraction_digits_def Let_def split: sum.splits if_splits)

lemma field_value_error:
  assumes "entry_ok spec" "field_value buf off spec = Inl e"
  shows "e = RangeError"
proof (cases "parser spec")
  case None
  with assms(1) obtain n where n: "bytes spec = Some n"
    using entry_ok_genericD by blast
  from assms(2) None n show ?thesis
    by (auto simp: field_value_def readIntLE_def readUIntLE_def Let_def
             split: sum.splits if_splits dest: number_value_error)
next
  case (Some p)
  with assms(2) show ?thesis
    by (auto simp: field_value_def readUInt8_def
             split: sum.splits option.splits if_splits dest: run_parser_error)
qed

lemma decode_loop_error:
  "decode_loop buf offset ids rd unk = Inl e \<Longrightarrow> e = RangeError"
proof (induction buf offset ids rd unk rule: decode_loop.induct)
  case (1 buf offset ids rd unk)
  show ?case
  proof (cases "offset < length buf")
    case False
    with "1.prems" show ?thesis by (simp add: decode_loop_end)
  next
    case True
    show ?thesis
    proof (cases "BTHOME_SPEC (unat (buf ! offset))")
      case None
      with True "1.prems" show ?thesis by (simp add: decode_loop_unknown)
    next
      case (Some spec)
      show ?thesis
      proof (cases "field_value buf (offset + 1) spec")
        case (Inl e')
        with "1.prems" True Some have "e = e'"
          by (subst (asm) decode_loop_unfold) simp
        with Inl field_value_error [OF table_entry_ok [OF Some]] show ?thesis by blast
      next
        case (Inr r)
        obtain v offset' where r: "r = (v, offset')" by (cases r)
        from "1.prems" True Some Inr r
        have "decode_loop buf offset' (ids @ [unat (buf ! offset)])
                (store_reading (ids @ [unat (buf ! offset)]) (unat (buf ! offset)) (name spec) v rd) unk
              = Inl e"
          by (subst (asm) decode_loop_unfold) simp
        with "1.IH" [OF True refl Some] Inr r show ?thesis by simp
      qed
    qed
  qed
qed

lemma decodeBTHome_error: "decodeBTHome buf = Inl e \<Longrightarrow> e = RangeError"
  by (auto simp: decodeBTHome_def readUInt8_def split: sum.splits if_splits dest: decode_loop_error)

section \<open>The loop of the vendor decoder\<close>

lemma shelly_end:
  "length buf \<le> offset \<Longrightarrow> decodeShelly_blocks buf offset res = Inr res"
  by (subst decodeShelly_blocks.simps) simp

lemma shelly_unknown_stop:
  "offset < length buf \<Longrightarrow> \<not> known_block_type (buf ! offset) \<Longrightarrow>
   decodeShelly_blocks buf offset res = Inr res"
  by (subst decodeShelly_blocks.simps) (simp add: known_block_type_def Let_def shelly_end)

lemma readUInt16LE_local:
  "k + 2 \<le> length p \<Longrightarrow> readUInt16LE (pre @ p @ post) (length pre + k) = readUInt16LE p k"
  by (simp add: readUInt16LE_def take_drop_local)

lemma shelly_flags_step:
  "offset < length buf \<Longrightarrow> unat (buf ! offset) = 0x01 \<Longrightarrow>
   readUInt16LE buf (offset + 1) = Inr w \<Longrightarrow>
   decodeShelly_blocks buf offset res =
   decodeShelly_blocks buf (offset + 1 + 2)
     (res\<lparr>flags := Some \<lparr>discoverable = (w AND push_bit 0 1 \<noteq> 0),
                            authEnabled = (w AND push_bit 1 1 \<noteq> 0),
                            rpcEnabled = (w AND push_bit 2 1 \<noteq> 0),
                            buzzerEnabled = (w AND push_bit 3 1 \<noteq> 0),
                            inPairingMode = (w AND push_bit 4 1 \<noteq> 0)\<rparr>\<rparr>)"
  by (subst decodeShelly_blocks.simps) (simp add: Let_def)

lemma shelly_model_step:
  "offset < length buf \<Longrightarrow> unat (buf ! offset) = 0x0b \<Longrightarrow>
   readUInt16LE buf (offset + 1) = Inr w \<Longrightarrow>
   decodeShelly_blocks buf offset res =
   decodeShelly_blocks buf (offset + 1 + 2)
     (res\<lparr>modelId := Some w, modelIdShortName := getShellyBluShortName w,
           modelIdLongName := getShellyBluLongName w\<rparr>)"
  by (subst decodeShelly_blocks.simps) (simp add: Let_def)

lemma shelly_mac_step:
  "offset < length buf \<Longrightarrow> unat (buf ! offset) = 0x0a \<Longrightarrow>
   decodeShelly_blocks buf offset res =
   decodeShelly_blocks buf (offset + 1 + 6)
     (res\<lparr>mac := mac_string (slice buf (offset + 1) (offset + 1 + 6))\<rparr>)"
  by (subst decodeShelly_blocks.simps) (simp add: Let_def)

lemma shelly_block:
  assumes "block_ok blk"
  shows "decodeShelly_blocks (pre @ blk @ post) (length pre) res =
         decodeShelly_blocks (pre @ blk @ post) (length pre + length blk) (block_result blk res)"
proof -
  from assms obtain t payload where blk: "blk = t # payload"
    and ty: "(unat t = 0x01 \<and> length payload = 2) \<or> (unat t = 0x0b \<and> length payload = 2)
           \<or> (unat t = 0x0a \<and> length payload = 6)"
    by (auto simp: block_ok_def split: list.splits)
  have hd: "(pre @ blk @ post) ! length pre = t" "blk ! 0 = t"
    and lt: "length pre < length (pre @ blk @ post)" "0 < length blk"
    by (simp_all add: blk nth_append)
  from ty consider (flags) "unat t = 0x01" "length payload = 2"
    | (model) "unat t = 0x0b" "length payload = 2"
    | (mac) "unat t = 0x0a" "length payload = 6" by blast
  then show ?thesis
  proof cases
    case flags
    have len: "length blk = 3" using flags by (simp add: blk)
    obtain w where w: "readUInt16LE blk (0 + 1) = Inr w"
      using len by (simp add: readUInt16LE_def)
    have rd: "readUInt16LE (pre @ blk @ post) (length pre + 1) = Inr w"
      using readUInt16LE_local [of 1 blk pre post] len w by simp
    have "block_result blk res = res\<lparr>flags := Some \<lparr>discoverable = (w AND push_bit 0 1 \<noteq> 0),
                            authEnabled = (w AND push_bit 1 1 \<noteq> 0),
                            rpcEnabled = (w AND push_bit 2 1 \<noteq> 0),
                            buzzerEnabled = (w AND push_bit 3 1 \<noteq> 0),
                            inPairingMode = (w AND push_bit 4 1 \<noteq> 0)\<rparr>\<rparr>"
      unfolding block_result_def
      using shelly_flags_step [OF lt(2) _ w, of res] flags(1) hd(2) len
      by (simp add: shelly_end)
    then show ?thesis
      using shelly_flags_step [OF lt(1) _ rd, of res] flags(1) hd(1) len by (simp add: eval_nat_numeral)
  next
    case model
    have len: "length blk = 3" using model by (simp add: blk)
    obtain w where w: "readUInt16LE blk (0 + 1) = Inr w"
      using len by (simp add: readUInt16LE_def)
    have rd: "readUInt16LE (pre @ blk @ post) (length pre + 1) = Inr w"
      using readUInt16LE_local [of 1 blk pre post] len w by simp
    have "block_result blk res = res\<lparr>modelId := Some w, modelIdShortName := getShellyBluShortName w,
           modelIdLongName := getShellyBluLongName w\<rparr>"
      unfolding block_result_def
      using shelly_model_step [OF lt(2) _ w, of res] model(1) hd(2) len
      by (simp add: shelly_end)
    then show ?thesis
      using shelly_model_step [OF lt(1) _ rd, of res] model(1) hd(1) len by (simp add: eval_nat_numeral)
  next
    case mac
    have len: "length blk = 7" using mac by (simp add: blk)
    have sl: "slice (pre @ blk @ post) (length pre + 1) (length pre + 1 + 6) = slice blk (0 + 1) (0 + 1 + 6)"
      using slice_local [of 7 blk pre post 1] len by (simp add: add.commute)
    have "block_result blk res = res\<lparr>mac := mac_string (slice blk (0 + 1) (0 + 1 + 6))\<rparr>"
      unfolding block_result_def
      using shelly_mac_step [OF lt(2), of res] mac(1) hd(2) len
      by (simp add: shelly_end)
    then show ?thesis
      using shelly_mac_step [OF lt(1), of res] mac(1) hd(1) len sl by (simp add: eval_nat_numeral)
  qed
qed

lemma shelly_blocks:
  assumes "\<forall>blk \<in> set blocks. block_ok blk"
  shows "decodeShelly_blocks (pre @ concat blocks @ post) (length pre) res =
         decodeShelly_blocks (pre @ concat blocks @ post) (length pre + length (concat blocks))
           (foldl (\<lambda>r blk. block_result blk r) res blocks)"
  using assms
proof (induction blocks arbitrary: pre res)
  case Nil
  show ?case by simp
next
  case (Cons blk blocks)
  then have ok: "block_ok blk" and oks: "\<forall>blk \<in> set blocks. block_ok blk" by simp_all
  have "decodeShelly_blocks (pre @ concat (blk # blocks) @ post) (length pre) res =
        decodeShelly_blocks ((pre @ blk) @ concat blocks @ post) (length (pre @ blk))
          (block_result blk res)"
    using shelly_block [OF ok, of pre "concat blocks @ post" res] by simp
  also have "\<dots> = decodeShelly_blocks ((pre @ blk) @ concat blocks @ post)
          (length (pre @ blk) + length (concat blocks))
          (foldl (\<lambda>r blk. block_result blk r) (block_result blk res) blocks)"
    by (rule Cons.IH [OF oks])
  finally show ?case by (simp add: add.assoc)
qed

lemma shelly_companyId:
  "decodeShelly_blocks buf offset res = Inr r \<Longrightarrow> companyId r = companyId res"
proof (induction buf offset res rule: decodeShelly_blocks.induct)
  case (1 buf offset result)
  show ?case
  proof (cases "offset < length buf")
    case False
    with "1.prems" show ?thesis by (simp add: shelly_end)
  next
    case True
    show ?thesis
      using "1.prems" "1.IH" True
      by (subst (asm) decodeShelly_blocks.simps)
         (auto simp: Let_def shelly_end split: if_splits sum.splits)
  qed
qed

section \<open>Evaluation on concrete buffers\<close>

lemmas table_defs = BTHOME_SPEC_def BTHOME_SPEC_entries_def numeric_def parsed_def prefixed_def

lemmas decode_defs = decodeBTHome_def readUInt8_def decode_loop_unfold field_value_def
  run_parser_def slice_def index_def template_part_def prefixed_slice_def
  dec_string_def hex_string_def radix_string.simps digit_char_def store_reading_def
  readIntLE_def readUIntLE_def number_value_def fraction_digits_def trunc_log10_def ilog10.simps
  toFixed_def floor_rat_numeral_div unknown_entry_def hex_of_bytes_def EVENT_MAP_def dimmer_map_def
  Let_def

lemmas field_defs = field_ok_def payload_ok_def field_name_def field_reading_def payload_value_def
  encode_fields_def

text \<open>
  On the other scales of the table, the powers of ten, the generic value is the raw
  integer times the scale.
\<close>

lemma toFixed_exact:
  "toFixed (of_int raw / 10 ^ d) d = of_int raw / 10 ^ d"
proof -
  have m: "\<bar>rat_of_int raw / 10 ^ d\<bar> * 10 ^ d = of_int \<bar>raw\<bar>"
    by (simp add: abs_divide abs_mult)
  have "\<lfloor>rat_of_int \<bar>raw\<bar> + 1 / 2\<rfloor> = \<bar>raw\<bar>"
    by (rule floor_unique) simp_all
  then have "\<lfloor>\<bar>rat_of_int raw / 10 ^ d\<bar> * 10 ^ d + 1 / 2\<rfloor> = \<bar>raw\<bar>"
    by (simp only: m)
  then have "toFixed (of_int raw / 10 ^ d) d = sgn (rat_of_int raw / 10 ^ d) * of_int \<bar>raw\<bar> / 10 ^ d"
    by (simp add: toFixed_def)
  also have "\<dots> = of_int raw / 10 ^ d"
    by (cases "raw < 0"; cases "raw = 0")
       (simp_all add: sgn_if zero_less_divide_iff divide_less_0_iff)
  finally show ?thesis .
qed

lemma number_value_power_of_ten:
  "number_value raw 1 = Inr (Num (of_int raw))"
  "number_value raw (1/10) = Inr (Num (of_int raw / 10))"
  "number_value raw (1/100) = Inr (Num (of_int raw / 100))"
  "number_value raw (1/1000) = Inr (Num (of_int raw / 1000))"
  using toFixed_exact [of raw 0] toFixed_exact [of raw 1] toFixed_exact [of raw 2]
    toFixed_exact [of raw 3]
  by (simp_all add: number_value_def fraction_digits_table)

section \<open>The vendor decoder on buffers of complete blocks\<close>

lemmas shelly_defs = decodeShellyManufacturerData_def input_length_def readUInt16LE_def
  decodeShelly_blocks.simps slice_def mac_string_def hex_of_bytes_def digit_char_def
  getShellyBluShortName_def getShellyBluLongName_def SHELLY_MODEL_SHORT_NAMES_def
  SHELLY_MODEL_LONG_NAMES_def Let_def

lemma readUInt16LE_company:
  "readUInt16LE (0xa9 # 0x0b # rest) 0 = Inr 0x0ba9"
  by (simp add: readUInt16LE_def)

lemma decodeShelly_blocks_buffer:
  assumes "\<forall>blk \<in> set blocks. block_ok blk"
    and "tail = [] \<or> \<not> known_block_type (hd tail)"
    and "10 \<le> length (0xa9 # 0x0b # concat blocks @ tail)"
  shows "decodeShellyManufacturerData (Buffer (0xa9 # 0x0b # concat blocks @ tail))
         = Inr (Some (foldl (\<lambda>r blk. block_result blk r) empty_result blocks))"
proof -
  let ?buf = "[0xa9, 0x0b] @ concat blocks @ tail"
  let ?res = "foldl (\<lambda>r blk. block_result blk r) empty_result blocks"
  have "decodeShelly_blocks ?buf (length [0xa9 :: byte, 0x0b] + length (concat blocks)) ?res = Inr ?res"
  proof (cases tail)
    case Nil
    then show ?thesis by (simp add: shelly_end)
  next
    case (Cons u t)
    with assms(2) have "\<not> known_block_type u" by simp
    then show ?thesis
      by (intro shelly_unknown_stop) (simp_all add: Cons nth_append)
  qed
  with shelly_blocks [OF assms(1), of "[0xa9, 0x0b]" tail empty_result]
  have "decodeShelly_blocks (0xa9 # 0x0b # concat blocks @ tail) 2 empty_result = Inr ?res"
    by (simp add: numeral_2_eq_2)
  with assms(3) show ?thesis
    by (simp add: decodeShellyManufacturerData_def input_length_def readUInt16LE_company
        empty_result_def)
qed

lemma shelly_only_range_error:
  "decodeShelly_blocks buf offset res = Inl e \<Longrightarrow> e = RangeError"
proof (induction buf offset res rule: decodeShelly_blocks.induct)
  case (1 buf offset result)
  show ?case
  proof (cases "offset < length buf")
    case False
    with "1.prems" show ?thesis by (simp add: shelly_end)
  next
    case True
    show ?thesis
      using "1.prems" "1.IH" True
      by (subst (asm) decodeShelly_blocks.simps)
         (auto simp: Let_def shelly_end readUInt16LE_def split: if_splits sum.splits)
  qed
qed

lemma foldl_block_result_companyId:
  "companyId (foldl (\<lambda>r blk. block_result blk r) res blocks) = companyId res"
proof (induction blocks arbitrary: res)
  case Nil
  show ?case by simp
next
  case (Cons blk blocks)
  have "companyId (block_result blk res) = companyId res"
    by (auto simp: block_result_def split: sum.splits dest: shelly_companyId)
  with Cons show ?case by simp
qed

text \<open>
  For an input that is a hex string, the length test counts the characters of the string,
  before the conversion to bytes: ten hex digits, which are five bytes, pass it.
\<close>

lemma hex_string_length_in_characters:
  "decodeShellyManufacturerData (HexString ''a90b000000'')
     = Inr (Some \<lparr>companyId = 0x0ba9, flags = None, modelId = None,
                   modelIdShortName = None, modelIdLongName = None, mac = None\<rparr>)"
  by (simp add: shelly_defs is_space_def unhex_def)

section \<open>The unknown entry and the header of a result\<close>

lemma hex_string_two_digits:
  "16 \<le> n \<Longrightarrow> n < 256 \<Longrightarrow>
   hex_string n = [''0123456789abcdef'' ! (n div 16), ''0123456789abcdef'' ! (n mod 16)]"
proof -
  assume a: "16 \<le> n" "n < 256"
  then have d: "n div 16 < 16" by simp
  have "hex_string n = radix_string 16 (n div 16) @ [digit_char (n mod 16)]"
    using a by (simp add: hex_string_def radix_string.simps [of 16 n])
  also have "radix_string 16 (n div 16) = [digit_char (n div 16)]"
    using d by (simp add: radix_string.simps [of 16 "n div 16"])
  finally show ?thesis by (simp add: digit_char_def)
qed

lemma small_ids_known: "n < 16 \<Longrightarrow> BTHOME_SPEC n \<noteq> None"
proof -
  have "\<forall>k \<in> set [0..<16]. BTHOME_SPEC k \<noteq> None"
    by (simp add: upt_rec table_defs)
  moreover assume "n < 16"
  ultimately show ?thesis by simp
qed

lemma unknown_entry_explicit:
  assumes "BTHOME_SPEC (unat (u :: byte)) = None"
  shows "unknown_entry (unat u) rest =
         ''0x'' @ [''0123456789abcdef'' ! (unat u div 16), ''0123456789abcdef'' ! (unat u mod 16)]
         @ '' '' @ [CHR 0xE2, CHR 0x86, CHR 0x92] @ '' 0x''
         @ concat (map (\<lambda>b. [''0123456789abcdef'' ! (unat b div 16),
                                ''0123456789abcdef'' ! (unat b mod 16)]) rest)"
proof -
  have "16 \<le> unat u" using assms small_ids_known [of "unat u"] by (cases "unat u < 16") auto
  moreover have "unat u < 256" using unsigned_less [of u] by simp
  ultimately show ?thesis
    by (simp add: unknown_entry_def hex_string_two_digits hex_of_bytes_def digit_char_def)
qed

lemma header_fields:
  fixes h :: byte and rd :: "(string \<times> jsval) list" and unk :: "string list"
  defines "r \<equiv> \<lparr>version = drop_bit 5 (unat h) AND 7, encrypted = (unat h AND 1 \<noteq> 0),
                  trigger = (unat h AND 4 \<noteq> 0), readings = rd, unknown = unk\<rparr>"
  shows "version r = unat (drop_bit 5 h) \<and> encrypted r = bit h 0 \<and> trigger r = bit h 2"
proof -
  have v: "version r = drop_bit 5 (unat h) AND 7"
    and e: "encrypted r = (unat h AND 1 \<noteq> 0)"
    and t: "trigger r = (unat h AND 4 \<noteq> 0)"
    unfolding r_def by simp_all
  have "version r = unat (drop_bit 5 h)" by (simp only: v header_version)
  moreover have "encrypted r = bit h 0" by (simp only: e header_encrypted)
  moreover have "trigger r = bit h 2" by (simp only: t header_trigger)
  ultimately show ?thesis by blast
qed

lemma decodeBTHome_cases:
  "decodeBTHome (h # rest) = Inl RangeError
   \<or> (\<exists>rd unk. decodeBTHome (h # rest)
         = Inr \<lparr>version = drop_bit 5 (unat h) AND 7, encrypted = (unat h AND 1 \<noteq> 0),
                trigger = (unat h AND 4 \<noteq> 0), readings = rd, unknown = unk\<rparr>)"
proof (cases "decode_loop (h # rest) 1 [] [] []")
  case (Inl e)
  then have "e = RangeError" by (rule decode_loop_error)
  with Inl show ?thesis by (simp add: decodeBTHome_def readUInt8_head)
next
  case (Inr p)
  obtain rd unk where "p = (rd, unk)" by (cases p)
  with Inr have "decodeBTHome (h # rest)
         = Inr \<lparr>version = drop_bit 5 (unat h) AND 7, encrypted = (unat h AND 1 \<noteq> 0),
                trigger = (unat h AND 4 \<noteq> 0), readings = rd, unknown = unk\<rparr>"
    unfolding decodeBTHome_def readUInt8_head by simp
  then show ?thesis by blast
qed

section \<open>The claims on the BTHome decoder\<close>

text \<open>
  Claim C10. \<open>decodeBTHome\<close> on the empty buffer throws: nothing checks that the buffer
  has a byte, and \<open>readUInt8(0)\<close> fails. On a buffer of at least one byte the read of the
  header returns its first byte.
\<close>

theorem empty_buffer_throws:
  "decodeBTHome [] = Inl RangeError \<and> (buf \<noteq> [] \<longrightarrow> readUInt8 buf 0 = Inr (unat (hd buf)))"
  by (cases buf) (simp_all add: decodeBTHome_def readUInt8_def)

text \<open>Claim C10, at the one-byte buffer \<open>[0x40]\<close>.\<close>

theorem empty_buffer_throws_witness:
  "decodeBTHome [] = Inl RangeError \<and> [0x40 :: byte] \<noteq> [] \<and> readUInt8 [0x40] 0 = Inr 64"
  using empty_buffer_throws [of "[0x40]"] by simp

text \<open>
  Claim C6. On every non-empty buffer the outcome of \<open>decodeBTHome\<close> is either a range
  error, thrown by a read after the header, or a result in which \<open>version\<close> is the number in
  bits 5 to 7 of byte 0, \<open>encrypted\<close> is bit 0 and \<open>trigger\<close> is bit 2. Whatever the header
  byte, such a result is returned when the bytes after it are complete fields, followed by
  nothing or by an id that is not in the table and any bytes. No other bit of the header
  affects the outcome: two header bytes that agree on bits 0, 2, 5, 6 and 7 (mask \<open>0xE5\<close>)
  give the same outcome in front of the same bytes.
\<close>

theorem header_bits:
  "(decodeBTHome (h # rest) = Inl RangeError
      \<or> (\<exists>r. decodeBTHome (h # rest) = Inr r
            \<and> version r = unat (drop_bit 5 h) \<and> encrypted r = bit h 0 \<and> trigger r = bit h 2))
   \<and> ((\<forall>f \<in> set fs. field_ok f) \<and> (tail = [] \<or> BTHOME_SPEC (unat (hd tail)) = None)
        \<longrightarrow> (\<exists>r. decodeBTHome (h # encode_fields fs @ tail) = Inr r
              \<and> version r = unat (drop_bit 5 h) \<and> encrypted r = bit h 0 \<and> trigger r = bit h 2))
   \<and> (h AND 0xE5 = h' AND 0xE5 \<longrightarrow> decodeBTHome (h # rest) = decodeBTHome (h' # rest))"
proof (intro conjI impI)
  show "decodeBTHome (h # rest) = Inl RangeError
      \<or> (\<exists>r. decodeBTHome (h # rest) = Inr r
            \<and> version r = unat (drop_bit 5 h) \<and> encrypted r = bit h 0 \<and> trigger r = bit h 2)"
    using decodeBTHome_cases [of h rest] header_fields [of h] by metis
next
  assume a: "(\<forall>f \<in> set fs. field_ok f) \<and> (tail = [] \<or> BTHOME_SPEC (unat (hd tail)) = None)"
  have "\<exists>rd unk. decodeBTHome (h # encode_fields fs @ tail)
         = Inr \<lparr>version = drop_bit 5 (unat h) AND 7, encrypted = (unat h AND 1 \<noteq> 0),
                trigger = (unat h AND 4 \<noteq> 0), readings = rd, unknown = unk\<rparr>"
  proof (cases tail)
    case Nil
    with a decodeBTHome_fields [of fs h] show ?thesis by auto
  next
    case (Cons u t)
    with a decodeBTHome_fields_unknown [of fs u h t] show ?thesis by auto
  qed
  then show "\<exists>r. decodeBTHome (h # encode_fields fs @ tail) = Inr r
              \<and> version r = unat (drop_bit 5 h) \<and> encrypted r = bit h 0 \<and> trigger r = bit h 2"
    using header_fields [of h] by metis
next
  assume "h AND 0xE5 = h' AND 0xE5"
  then show "decodeBTHome (h # rest) = decodeBTHome (h' # rest)"
    using decodeBTHome_mask [of h rest] decodeBTHome_mask [of h' rest] by simp
qed

text \<open>
  Claim C6, at the headers \<open>0x45\<close> and \<open>0x38\<close> in front of a battery field, at the header
  \<open>0x45\<close> in front of a battery field and the unknown id \<open>0x12\<close>, and at the headers
  \<open>0x45\<close> and \<open>0x5F\<close>, which differ in bits 1, 3 and 4 only.
\<close>

theorem header_bits_witness:
  "decodeBTHome [0x45, 0x01, 0x64]
     = Inr \<lparr>version = 2, encrypted = True, trigger = True,
            readings = [(''battery'', Num 100)], unknown = []\<rparr>
   \<and> unat (drop_bit 5 (0x45 :: byte)) = 2 \<and> bit (0x45 :: byte) 0 \<and> bit (0x45 :: byte) 2
   \<and> decodeBTHome [0x38, 0x01, 0x64]
     = Inr \<lparr>version = 1, encrypted = False, trigger = False,
            readings = [(''battery'', Num 100)], unknown = []\<rparr>
   \<and> unat (drop_bit 5 (0x38 :: byte)) = 1 \<and> \<not> bit (0x38 :: byte) 0 \<and> \<not> bit (0x38 :: byte) 2
   \<and> field_ok (0x01, [0x64]) \<and> BTHOME_SPEC (unat (hd [0x12 :: byte, 0xAB])) = None
   \<and> decodeBTHome (0x45 # encode_fields [(0x01, [0x64])] @ [0x12, 0xAB])
     = Inr \<lparr>version = 2, encrypted = True, trigger = True,
            readings = [(''battery'', Num 100)],
            unknown = [''0x12 '' @ [CHR 0xE2, CHR 0x86, CHR 0x92] @ '' 0x12ab'']\<rparr>
   \<and> (0x45 :: byte) AND 0xE5 = 0x5F AND 0xE5
   \<and> decodeBTHome [0x45, 0x01, 0x64] = decodeBTHome [0x5F, 0x01, 0x64]"
proof -
  have d: "decodeBTHome [0x45, 0x01, 0x64]
     = Inr \<lparr>version = 2, encrypted = True, trigger = True,
            readings = [(''battery'', Num 100)], unknown = []\<rparr>"
    by (simp add: decode_defs table_defs)
  have d1: "decodeBTHome [0x38, 0x01, 0x64]
     = Inr \<lparr>version = 1, encrypted = False, trigger = False,
            readings = [(''battery'', Num 100)], unknown = []\<rparr>"
    by (simp add: decode_defs table_defs)
  have b: "unat (drop_bit 5 (0x38 :: byte)) = 1" "\<not> bit (0x38 :: byte) 0" "\<not> bit (0x38 :: byte) 2"
    by simp_all
  have h1: "\<forall>f \<in> set [(0x01, [0x64])]. field_ok f"
    by (simp add: field_defs table_defs)
  have h2: "BTHOME_SPEC (unat (hd [0x12 :: byte, 0xAB])) = None"
    by (simp add: table_defs)
  have d2: "decodeBTHome (0x45 # encode_fields [(0x01, [0x64])] @ [0x12, 0xAB])
     = Inr \<lparr>version = 2, encrypted = True, trigger = True,
            readings = [(''battery'', Num 100)],
            unknown = [''0x12 '' @ [CHR 0xE2, CHR 0x86, CHR 0x92] @ '' 0x12ab'']\<rparr>"
    by (simp add: decode_defs table_defs encode_fields_def)
  have m: "(0x45 :: byte) AND 0xE5 = 0x5F AND 0xE5" by simp
  from header_bits [of "0x45" "[0x01, 0x64]" "[(0x01, [0x64])]" "[0x12, 0xAB]" "0x5F"]
       d d1 b h1 h2 d2 m
  show ?thesis by simp
qed

text \<open>
  Claim C4. In a buffer of complete fields followed by an id that is not in the table,
  decoding stops at that id: the result is that of the fields before it, with an unknown
  list of one entry. The entry is written out here: \<open>0x\<close>, the two hex digits of the id
  (an id below 16 is always in the table), a space, the arrow U+2192, a space, \<open>0x\<close>, and
  two lower-case hex digits for the id byte and for each of the bytes after it, to the end
  of the buffer. When the unknown id comes first after the header, the readings are empty
  and the unknown list is this entry.
\<close>

theorem unknown_id_stops:
  assumes "\<forall>f \<in> set fs. field_ok f" and "BTHOME_SPEC (unat u) = None"
  shows "(\<exists>r. decodeBTHome (h # encode_fields fs) = Inr r
            \<and> decodeBTHome (h # encode_fields fs @ u # t)
                = Inr (r\<lparr>unknown :=
                    [''0x'' @ [''0123456789abcdef'' ! (unat u div 16),
                               ''0123456789abcdef'' ! (unat u mod 16)]
                     @ '' '' @ [CHR 0xE2, CHR 0x86, CHR 0x92] @ '' 0x''
                     @ concat (map (\<lambda>b. [''0123456789abcdef'' ! (unat b div 16),
                                            ''0123456789abcdef'' ! (unat b mod 16)]) (u # t))]\<rparr>))
       \<and> (\<exists>r. decodeBTHome (h # u # t) = Inr r \<and> readings r = []
            \<and> unknown r =
                [''0x'' @ [''0123456789abcdef'' ! (unat u div 16),
                           ''0123456789abcdef'' ! (unat u mod 16)]
                 @ '' '' @ [CHR 0xE2, CHR 0x86, CHR 0x92] @ '' 0x''
                 @ concat (map (\<lambda>b. [''0123456789abcdef'' ! (unat b div 16),
                                        ''0123456789abcdef'' ! (unat b mod 16)]) (u # t))])"
proof
  show "\<exists>r. decodeBTHome (h # encode_fields fs) = Inr r
            \<and> decodeBTHome (h # encode_fields fs @ u # t)
                = Inr (r\<lparr>unknown :=
                    [''0x'' @ [''0123456789abcdef'' ! (unat u div 16),
                               ''0123456789abcdef'' ! (unat u mod 16)]
                     @ '' '' @ [CHR 0xE2, CHR 0x86, CHR 0x92] @ '' 0x''
                     @ concat (map (\<lambda>b. [''0123456789abcdef'' ! (unat b div 16),
                                            ''0123456789abcdef'' ! (unat b mod 16)]) (u # t))]\<rparr>)"
    using decodeBTHome_fields [OF assms(1), of h]
      decodeBTHome_fields_unknown [OF assms, of h t]
    by (simp add: unknown_entry_explicit [OF assms(2)])
  show "\<exists>r. decodeBTHome (h # u # t) = Inr r \<and> readings r = []
            \<and> unknown r =
                [''0x'' @ [''0123456789abcdef'' ! (unat u div 16),
                           ''0123456789abcdef'' ! (unat u mod 16)]
                 @ '' '' @ [CHR 0xE2, CHR 0x86, CHR 0x92] @ '' 0x''
                 @ concat (map (\<lambda>b. [''0123456789abcdef'' ! (unat b div 16),
                                        ''0123456789abcdef'' ! (unat b mod 16)]) (u # t))]"
    using decodeBTHome_fields_unknown [of "[]" u h t] assms(2)
    by (simp add: encode_fields_def unknown_entry_explicit [OF assms(2)])
qed

text \<open>
  Claim C4, at a battery and a temperature field followed by the unknown id \<open>0x12\<close> and
  four more bytes, which would read as a battery field and the start of another field.
\<close>

theorem unknown_id_stops_witness:
  "field_ok (0x01, [0x64]) \<and> field_ok (0x02, [0xCE, 0xFF])
   \<and> BTHOME_SPEC (unat (0x12 :: byte)) = None
   \<and> decodeBTHome [0x40, 0x01, 0x64, 0x02, 0xCE, 0xFF]
       = Inr \<lparr>version = 2, encrypted = False, trigger = False,
              readings = [(''battery'', Num 100), (''temperature'', Num (- (1 / 2)))],
              unknown = []\<rparr>
   \<and> decodeBTHome [0x40, 0x01, 0x64, 0x02, 0xCE, 0xFF, 0x12, 0xAB, 0x01, 0x64, 0xF0]
       = Inr \<lparr>version = 2, encrypted = False, trigger = False,
              readings = [(''battery'', Num 100), (''temperature'', Num (- (1 / 2)))],
              unknown = [''0x12 '' @ [CHR 0xE2, CHR 0x86, CHR 0x92] @ '' 0x12ab0164f0'']\<rparr>
   \<and> decodeBTHome [0x40, 0x12, 0xAB, 0x01, 0x64, 0xF0]
       = Inr \<lparr>version = 2, encrypted = False, trigger = False,
              readings = [],
              unknown = [''0x12 '' @ [CHR 0xE2, CHR 0x86, CHR 0x92] @ '' 0x12ab0164f0'']\<rparr>"
proof -
  have h1: "\<forall>f \<in> set [(0x01, [0x64]), (0x02, [0xCE, 0xFF])]. field_ok f"
    by (simp add: field_defs table_defs)
  have h2: "BTHOME_SPEC (unat (0x12 :: byte)) = None"
    by (simp add: table_defs)
  have d: "decodeBTHome [0x40, 0x01, 0x64, 0x02, 0xCE, 0xFF]
       = Inr \<lparr>version = 2, encrypted = False, trigger = False,
              readings = [(''battery'', Num 100), (''temperature'', Num (- (1 / 2)))],
              unknown = []\<rparr>"
    by (simp add: decode_defs table_defs)
  have d3: "decodeBTHome [0x40, 0x12, 0xAB, 0x01, 0x64, 0xF0]
       = Inr \<lparr>version = 2, encrypted = False, trigger = False,
              readings = [],
              unknown = [''0x12 '' @ [CHR 0xE2, CHR 0x86, CHR 0x92] @ '' 0x12ab0164f0'']\<rparr>"
    by (simp add: decode_defs table_defs)
  from unknown_id_stops [OF h1 h2, of "0x40" "[0xAB, 0x01, 0x64, 0xF0]"] h1 h2 d d3
  show ?thesis by (simp add: encode_fields_def)
qed

text \<open>
  Claim C9. Two distinct ids with the same descriptor name, each occurring once (no other
  field of the buffer having that name): the occurrences are counted for each id, so no
  key \<open>name:k\<close> is made, and the key \<open>name\<close> holds the value of the later field. In the
  buffer of just the two fields the readings are the single entry of the later value: the
  earlier one is gone.
\<close>

theorem shared_name_overwrites:
  assumes "\<forall>f \<in> set (A @ [(a, p)] @ B @ [(b, q)] @ C). field_ok f"
    and "a \<noteq> b"
    and "field_name (a, p) = Some n" and "field_name (b, q) = Some n"
    and "\<forall>f \<in> set (A @ B @ C). field_name f \<noteq> Some n"
  shows "(\<exists>r. decodeBTHome (h # encode_fields (A @ [(a, p)] @ B @ [(b, q)] @ C)) = Inr r
            \<and> map_of (readings r) n = payload_value (b, q)
            \<and> payload_value (b, q) \<noteq> None
            \<and> (\<forall>s. map_of (readings r) (n @ '':'' @ s) = None))
       \<and> (\<exists>r v. decodeBTHome (h # encode_fields [(a, p), (b, q)]) = Inr r
            \<and> payload_value (b, q) = Some v \<and> readings r = [(n, v)])"
proof
  show "\<exists>r. decodeBTHome (h # encode_fields (A @ [(a, p)] @ B @ [(b, q)] @ C)) = Inr r
            \<and> map_of (readings r) n = payload_value (b, q)
            \<and> payload_value (b, q) \<noteq> None
            \<and> (\<forall>s. map_of (readings r) (n @ '':'' @ s) = None)"
    using decodeBTHome_fields [OF assms(1), of h] shared_name_map [OF assms] by simp
next
  from assms(1) have ok: "\<forall>f \<in> set [(a, p), (b, q)]. field_ok f"
    and oka: "field_ok (a, p)" and okb: "field_ok (b, q)" by simp_all
  from field_ok_reading [OF oka] assms(3) obtain v1 where
    r1: "field_reading (a, p) = Some (n, v1)" by (auto simp: field_name_def)
  from field_ok_reading [OF okb] assms(4) obtain v2 where
    r2: "field_reading (b, q) = Some (n, v2)" by (auto simp: field_name_def)
  have ne: "unat a \<noteq> unat b" using assms(2) by (simp add: word_unat_eq_iff)
  have "run_fields [(a, p), (b, q)] [] [] = [(n, v2)]"
    using ne by (simp add: r1 r2 store_reading_def)
  then show "\<exists>r v. decodeBTHome (h # encode_fields [(a, p), (b, q)]) = Inr r
            \<and> payload_value (b, q) = Some v \<and> readings r = [(n, v)]"
    using decodeBTHome_fields [OF ok, of h] by (simp add: payload_value_def r2)
qed

text \<open>
  Claim C9, at the ids \<open>0x02\<close> (value -0.5) and \<open>0x45\<close> (value 2.5), both named
  \<open>temperature\<close>.
\<close>

theorem shared_name_overwrites_witness:
  "field_ok (0x02, [0xCE, 0xFF]) \<and> field_ok (0x45, [0x19, 0x00])
   \<and> (0x02 :: byte) \<noteq> 0x45
   \<and> field_name (0x02, [0xCE, 0xFF]) = Some ''temperature''
   \<and> field_name (0x45, [0x19, 0x00]) = Some ''temperature''
   \<and> payload_value (0x02, [0xCE, 0xFF]) = Some (Num (- (1 / 2)))
   \<and> payload_value (0x45, [0x19, 0x00]) = Some (Num (5 / 2))
   \<and> decodeBTHome [0x40, 0x02, 0xCE, 0xFF, 0x45, 0x19, 0x00]
       = Inr \<lparr>version = 2, encrypted = False, trigger = False,
              readings = [(''temperature'', Num (5 / 2))], unknown = []\<rparr>"
proof -
  have h1: "\<forall>f \<in> set ([] @ [(0x02, [0xCE, 0xFF])] @ [] @ [(0x45, [0x19, 0x00])] @ []). field_ok f"
    by (simp add: field_defs table_defs)
  have h2: "(0x02 :: byte) \<noteq> 0x45" by simp
  have h3: "field_name (0x02, [0xCE, 0xFF]) = Some ''temperature''"
    by (simp add: field_defs table_defs)
  have h4: "field_name (0x45, [0x19, 0x00]) = Some ''temperature''"
    by (simp add: field_defs table_defs)
  have h5: "\<forall>f \<in> set ([] @ [] @ []). field_name f \<noteq> Some ''temperature''" by simp
  have v1: "payload_value (0x02, [0xCE, 0xFF]) = Some (Num (- (1 / 2)))"
    by (simp add: field_defs table_defs decode_defs)
  have v2: "payload_value (0x45, [0x19, 0x00]) = Some (Num (5 / 2))"
    by (simp add: field_defs table_defs decode_defs)
  have d: "decodeBTHome [0x40, 0x02, 0xCE, 0xFF, 0x45, 0x19, 0x00]
       = Inr \<lparr>version = 2, encrypted = False, trigger = False,
              readings = [(''temperature'', Num (5 / 2))], unknown = []\<rparr>"
    by (simp add: decode_defs table_defs)
  from shared_name_overwrites [OF h1 h2 h3 h4 h5, of "0x40"] h1 h2 h3 h4 h5 v1 v2 d
  show ?thesis by simp
qed

text \<open>
  Claim C3 fails as it is stated. In this buffer the id \<open>0x45\<close> occurs exactly twice, with
  the id \<open>0x02\<close>, of the same name, in between. The key \<open>temperature:1\<close> then holds 0.02,
  the value of the field with id \<open>0x02\<close>, and not 0.1, the value decoded from the first
  occurrence of \<open>0x45\<close>.
\<close>

theorem same_id_twice_overwritten:
  "decodeBTHome [0x40, 0x45, 0x01, 0x00, 0x02, 0x02, 0x00, 0x45, 0x03, 0x00]
     = Inr \<lparr>version = 2, encrypted = False, trigger = False,
            readings = [(''temperature:1'', Num (1 / 50)), (''temperature:2'', Num (3 / 10))],
            unknown = []\<rparr>
   \<and> payload_value (0x45, [0x01, 0x00]) = Some (Num (1 / 10))
   \<and> payload_value (0x02, [0x02, 0x00]) = Some (Num (1 / 50))"
  by (simp add: decode_defs table_defs field_defs)

text \<open>
  Claim C3, amended. When an id occurs exactly twice among the complete fields of a buffer
  and no field with another id has the same descriptor name, the readings have no key
  \<open>name\<close>, the key \<open>name:1\<close> holds the value decoded from the bytes of the first
  occurrence and \<open>name:2\<close> the value decoded from the bytes of the second.
\<close>

theorem same_id_twice:
  assumes "\<forall>f \<in> set (A @ [(b, p1)] @ B @ [(b, p2)] @ C). field_ok f"
    and "field_name (b, p1) = Some n"
    and "\<forall>f \<in> set (A @ B @ C). field_name f \<noteq> Some n"
  shows "\<exists>r. decodeBTHome (h # encode_fields (A @ [(b, p1)] @ B @ [(b, p2)] @ C)) = Inr r
           \<and> map_of (readings r) (n @ '':1'') = payload_value (b, p1)
           \<and> map_of (readings r) (n @ '':2'') = payload_value (b, p2)
           \<and> map_of (readings r) n = None
           \<and> payload_value (b, p1) \<noteq> None \<and> payload_value (b, p2) \<noteq> None"
  using decodeBTHome_fields [OF assms(1), of h] repeated_id_map [OF assms] by simp

text \<open>
  Claim C3 as amended, at a battery field followed by two fields with id \<open>0x02\<close>
  (values -0.5 and 0.25).
\<close>

theorem same_id_twice_witness:
  "field_ok (0x01, [0x64]) \<and> field_ok (0x02, [0xCE, 0xFF]) \<and> field_ok (0x02, [0x19, 0x00])
   \<and> field_name (0x02, [0xCE, 0xFF]) = Some ''temperature''
   \<and> field_name (0x01, [0x64]) \<noteq> Some ''temperature''
   \<and> payload_value (0x02, [0xCE, 0xFF]) = Some (Num (- (1 / 2)))
   \<and> payload_value (0x02, [0x19, 0x00]) = Some (Num (1 / 4))
   \<and> decodeBTHome [0x40, 0x01, 0x64, 0x02, 0xCE, 0xFF, 0x02, 0x19, 0x00]
       = Inr \<lparr>version = 2, encrypted = False, trigger = False,
              readings = [(''battery'', Num 100), (''temperature:1'', Num (- (1 / 2))),
                          (''temperature:2'', Num (1 / 4))],
              unknown = []\<rparr>"
proof -
  have h1: "\<forall>f \<in> set ([(0x01, [0x64])] @ [(0x02, [0xCE, 0xFF])] @ [] @ [(0x02, [0x19, 0x00])] @ []).
       field_ok f"
    by (simp add: field_defs table_defs)
  have h2: "field_name (0x02, [0xCE, 0xFF]) = Some ''temperature''"
    by (simp add: field_defs table_defs)
  have h3: "\<forall>f \<in> set ([(0x01, [0x64])] @ [] @ []). field_name f \<noteq> Some ''temperature''"
    by (simp add: field_defs table_defs)
  have v1: "payload_value (0x02, [0xCE, 0xFF]) = Some (Num (- (1 / 2)))"
    by (simp add: field_defs table_defs decode_defs)
  have v2: "payload_value (0x02, [0x19, 0x00]) = Some (Num (1 / 4))"
    by (simp add: field_defs table_defs decode_defs)
  have d: "decodeBTHome [0x40, 0x01, 0x64, 0x02, 0xCE, 0xFF, 0x02, 0x19, 0x00]
       = Inr \<lparr>version = 2, encrypted = False, trigger = False,
              readings = [(''battery'', Num 100), (''temperature:1'', Num (- (1 / 2))),
                          (''temperature:2'', Num (1 / 4))],
              unknown = []\<rparr>"
    by (simp add: decode_defs table_defs)
  from same_id_twice [OF h1 h2 h3, of "0x40"] h1 h2 h3 v1 v2 d show ?thesis by simp
qed

text \<open>
  Claim C1 fails as it is stated. The id \<open>0x02\<close> declares two bytes; with one byte left,
  \<open>readIntLE\<close> throws a range error and no result is returned.
\<close>

theorem truncated_field_throws:
  "decodeBTHome [0x40, 0x02, 0x01] = Inl RangeError"
  by (simp add: decode_defs table_defs)

text \<open>
  Claim C1, amended. The only error \<open>decodeBTHome\<close> raises is a range error, from a read
  past the end of the buffer: the error for a descriptor without a width on the generic
  path is never raised, whatever the buffer. And it returns a result whenever the bytes
  after the header are complete fields, followed by nothing or by an id that is not in
  the table and any bytes.
\<close>

theorem decode_returns_on_complete_fields:
  "(decodeBTHome buf = Inl e \<longrightarrow> e = RangeError)
   \<and> ((\<forall>f \<in> set fs. field_ok f) \<and> (tail = [] \<or> BTHOME_SPEC (unat (hd tail)) = None)
        \<longrightarrow> (\<exists>r. decodeBTHome (h # encode_fields fs @ tail) = Inr r))"
proof (intro conjI impI)
  assume "decodeBTHome buf = Inl e"
  then show "e = RangeError" by (rule decodeBTHome_error)
next
  assume a: "(\<forall>f \<in> set fs. field_ok f) \<and> (tail = [] \<or> BTHOME_SPEC (unat (hd tail)) = None)"
  show "\<exists>r. decodeBTHome (h # encode_fields fs @ tail) = Inr r"
  proof (cases tail)
    case Nil
    with a decodeBTHome_fields [of fs h] show ?thesis by simp
  next
    case (Cons u t)
    with a decodeBTHome_fields_unknown [of fs u h t] show ?thesis by simp
  qed
qed

text \<open>
  Claim C1 as amended, at the truncated buffer for the error and at a temperature field
  followed by the unknown id \<open>0x12\<close> for the result.
\<close>

theorem decode_returns_on_complete_fields_witness:
  "decodeBTHome [0x40, 0x02, 0x01] = Inl RangeError
   \<and> field_ok (0x02, [0xCE, 0xFF])
   \<and> BTHOME_SPEC (unat (hd [0x12 :: byte, 0x01])) = None
   \<and> decodeBTHome (0x40 # encode_fields [(0x02, [0xCE, 0xFF])] @ [0x12, 0x01])
       = Inr \<lparr>version = 2, encrypted = False, trigger = False,
              readings = [(''temperature'', Num (- (1 / 2)))],
              unknown = [''0x12 '' @ [CHR 0xE2, CHR 0x86, CHR 0x92] @ '' 0x1201'']\<rparr>"
proof -
  have e: "decodeBTHome [0x40, 0x02, 0x01] = Inl RangeError"
    by (simp add: decode_defs table_defs)
  have h1: "\<forall>f \<in> set [(0x02, [0xCE, 0xFF])]. field_ok f"
    by (simp add: field_defs table_defs)
  have h2: "BTHOME_SPEC (unat (hd [0x12 :: byte, 0x01])) = None"
    by (simp add: table_defs)
  have d: "decodeBTHome (0x40 # encode_fields [(0x02, [0xCE, 0xFF])] @ [0x12, 0x01])
       = Inr \<lparr>version = 2, encrypted = False, trigger = False,
              readings = [(''temperature'', Num (- (1 / 2)))],
              unknown = [''0x12 '' @ [CHR 0xE2, CHR 0x86, CHR 0x92] @ '' 0x1201'']\<rparr>"
    by (simp add: decode_defs table_defs encode_fields_def)
  from decode_returns_on_complete_fields
         [of "[0x40, 0x02, 0x01]" RangeError "[(0x02, [0xCE, 0xFF])]" "[0x12, 0x01]" "0x40"]
       e h1 h2 d
  show ?thesis by simp
qed

text \<open>
  Claim C2. The parser of id \<open>0xF2\<close> takes the payload bytes as
  \<open>[minor, patch, major]\<close> and prints \<open>major.minor.patch\<close>: the payload \<open>[1, 2, 3]\<close>
  decodes to \<open>3.1.2\<close>, where the claim has \<open>3.2.1\<close>. The parser of id \<open>0xF1\<close> takes
  \<open>[rc, patch, minor, major]\<close>, the little-endian order that the comments of both
  entries announce.
\<close>

theorem firmware_short_component_order:
  "decodeBTHome [0x40, 0xF2, 0x01, 0x02, 0x03]
     = Inr \<lparr>version = 2, encrypted = False, trigger = False,
            readings = [(''firmwareVersionShort'', Str ''3.1.2'')], unknown = []\<rparr>
   \<and> decodeBTHome [0x40, 0xF1, 0x00, 0x01, 0x02, 0x03]
     = Inr \<lparr>version = 2, encrypted = False, trigger = False,
            readings = [(''firmwareVersion'', Str ''3.2.1.0'')], unknown = []\<rparr>"
  by (simp add: decode_defs table_defs)

text \<open>
  Claim C7. The id \<open>0x58\<close> has the scale 0.35. The number of decimals is
  \<open>Math.log10(1 / 0.35)\<close>, about 0.456, which \<open>toFixed\<close> truncates to 0: the raw value 1
  decodes to 0, where the raw value times the scale is 0.35.
\<close>

theorem scale_035_rounds_to_integer:
  "decodeBTHome [0x40, 0x58, 0x01]
     = Inr \<lparr>version = 2, encrypted = False, trigger = False,
            readings = [(''temperature'', Num 0)], unknown = []\<rparr>
   \<and> rat_of_int 1 * (35 / 100) = 7 / 20"
  by (simp add: decode_defs table_defs)

section \<open>The claims on the vendor decoder\<close>

text \<open>
  Claim C5 fails as it is stated. This buffer has ten bytes and the company identifier;
  after the MAC block, the type byte \<open>0x01\<close> is its last byte, and the read of the flags
  throws a range error.
\<close>

theorem vendor_truncated_block_throws:
  "decodeShellyManufacturerData
     (Buffer [0xa9, 0x0b, 0x0a, 0x11, 0x22, 0x33, 0xaa, 0xbb, 0xcc, 0x01]) = Inl RangeError"
  by (simp add: shelly_defs)

text \<open>
  Claim C5, amended, for an input that is a buffer. \<open>decodeShellyManufacturerData\<close>
  returns null exactly when the buffer has fewer than 10 bytes or its first two bytes,
  read little-endian, are not \<open>0x0BA9\<close>. The only error it raises is a range error. On a
  buffer of at least 10 bytes made of the company identifier and complete blocks,
  followed by nothing or by a block type other than \<open>0x01\<close>, \<open>0x0B\<close>, \<open>0x0A\<close> and any
  bytes, it returns a result that is not null, with the company identifier.
\<close>

theorem vendor_null_iff:
  "(decodeShellyManufacturerData (Buffer b) = Inr None
      \<longleftrightarrow> length b < 10 \<or> readUInt16LE b 0 \<noteq> Inr 0x0ba9)
   \<and> (decodeShellyManufacturerData (Buffer b) = Inl e \<longrightarrow> e = RangeError)
   \<and> ((\<forall>blk \<in> set blocks. block_ok blk) \<and> (tail = [] \<or> \<not> known_block_type (hd tail))
        \<and> 10 \<le> length (0xa9 # 0x0b # concat blocks @ tail)
       \<longrightarrow> (\<exists>r. decodeShellyManufacturerData (Buffer (0xa9 # 0x0b # concat blocks @ tail))
                  = Inr (Some r) \<and> companyId r = 0x0ba9))"
proof (intro conjI impI)
  show "decodeShellyManufacturerData (Buffer b) = Inr None
      \<longleftrightarrow> length b < 10 \<or> readUInt16LE b 0 \<noteq> Inr 0x0ba9"
    by (auto simp: decodeShellyManufacturerData_def input_length_def readUInt16LE_def
             split: sum.splits)
next
  assume "decodeShellyManufacturerData (Buffer b) = Inl e"
  then show "e = RangeError"
    by (auto simp: decodeShellyManufacturerData_def input_length_def readUInt16LE_def Let_def
             split: sum.splits if_splits dest: shelly_only_range_error)
next
  assume a: "(\<forall>blk \<in> set blocks. block_ok blk) \<and> (tail = [] \<or> \<not> known_block_type (hd tail))
        \<and> 10 \<le> length (0xa9 # 0x0b # concat blocks @ tail)"
  then show "\<exists>r. decodeShellyManufacturerData (Buffer (0xa9 # 0x0b # concat blocks @ tail))
                  = Inr (Some r) \<and> companyId r = 0x0ba9"
    using decodeShelly_blocks_buffer [of blocks tail]
    by (simp add: foldl_block_result_companyId empty_result_def)
qed


text \<open>
  Claim C5 as amended, at a buffer with another company identifier, at the buffer with the
  truncated flags block, and at a buffer with a model block, a flags block and an unknown
  block type.
\<close>

theorem vendor_null_iff_witness:
  "decodeShellyManufacturerData (Buffer [0xa8, 0x0b, 1, 2, 3, 4, 5, 6, 7, 8]) = Inr None
   \<and> readUInt16LE [0xa8, 0x0b, 1, 2, 3, 4, 5, 6, 7, 8] 0 \<noteq> Inr 0x0ba9
   \<and> decodeShellyManufacturerData
         (Buffer [0xa9, 0x0b, 0x0a, 0x11, 0x22, 0x33, 0xaa, 0xbb, 0xcc, 0x01]) = Inl RangeError
   \<and> block_ok [0x0b, 0x03, 0x00] \<and> block_ok [0x01, 0x05, 0x00]
   \<and> \<not> known_block_type (hd [0x07, 0xff])
   \<and> 10 \<le> length (0xa9 # 0x0b # concat [[0x0b, 0x03, 0x00], [0x01, 0x05, 0x00]] @ [0x07, 0xff :: byte])
   \<and> decodeShellyManufacturerData
         (Buffer [0xa9, 0x0b, 0x0b, 0x03, 0x00, 0x01, 0x05, 0x00, 0x07, 0xff])
       = Inr (Some \<lparr>companyId = 0x0ba9,
                     flags = Some \<lparr>discoverable = True, authEnabled = False, rpcEnabled = True,
                                   buzzerEnabled = False, inPairingMode = False\<rparr>,
                     modelId = Some 3, modelIdShortName = Some ''SBHT-003C'',
                     modelIdLongName = Some ''Shelly BLU HT'', mac = None\<rparr>)"
proof -
  have n: "decodeShellyManufacturerData (Buffer [0xa8, 0x0b, 1, 2, 3, 4, 5, 6, 7, 8]) = Inr None"
    by (simp add: shelly_defs)
  have c: "readUInt16LE [0xa8, 0x0b, 1, 2, 3, 4, 5, 6, 7, 8] 0 \<noteq> Inr 0x0ba9"
    by (simp add: readUInt16LE_def)
  have e: "decodeShellyManufacturerData
         (Buffer [0xa9, 0x0b, 0x0a, 0x11, 0x22, 0x33, 0xaa, 0xbb, 0xcc, 0x01]) = Inl RangeError"
    by (simp add: shelly_defs)
  have h1: "\<forall>blk \<in> set [[0x0b, 0x03, 0x00], [0x01, 0x05, 0x00]]. block_ok blk"
    by (simp add: block_ok_def)
  have h2: "\<not> known_block_type (hd [0x07, 0xff])"
    by (simp add: known_block_type_def)
  have h3: "10 \<le> length (0xa9 # 0x0b # concat [[0x0b, 0x03, 0x00], [0x01, 0x05, 0x00]] @ [0x07, 0xff :: byte])"
    by simp
  have d: "decodeShellyManufacturerData
         (Buffer [0xa9, 0x0b, 0x0b, 0x03, 0x00, 0x01, 0x05, 0x00, 0x07, 0xff])
       = Inr (Some \<lparr>companyId = 0x0ba9,
                     flags = Some \<lparr>discoverable = True, authEnabled = False, rpcEnabled = True,
                                   buzzerEnabled = False, inPairingMode = False\<rparr>,
                     modelId = Some 3, modelIdShortName = Some ''SBHT-003C'',
                     modelIdLongName = Some ''Shelly BLU HT'', mac = None\<rparr>)"
    by (simp add: shelly_defs)
  from vendor_null_iff [of "[0xa8, 0x0b, 1, 2, 3, 4, 5, 6, 7, 8]" RangeError
          "[[0x0b, 0x03, 0x00], [0x01, 0x05, 0x00]]" "[0x07, 0xff]"]
       vendor_null_iff [of "[0xa9, 0x0b, 0x0a, 0x11, 0x22, 0x33, 0xaa, 0xbb, 0xcc, 0x01]" RangeError
          "[[0x0b, 0x03, 0x00], [0x01, 0x05, 0x00]]" "[0x07, 0xff]"]
       n c e h1 h2 h3 d
  show ?thesis by simp
qed

text \<open>
  Claim C8. When the loop of \<open>decodeShellyManufacturerData\<close> meets a block type other than
  \<open>0x01\<close>, \<open>0x0B\<close> and \<open>0x0A\<close>, it returns the fields it holds, unchanged. So on a buffer
  of at least 10 bytes with complete blocks before such a type byte, the result is the one
  accumulated from those blocks, whatever the bytes after the type byte.
\<close>

theorem unknown_block_stops:
  "(offset < length buf \<and> \<not> known_block_type (buf ! offset)
      \<longrightarrow> decodeShelly_blocks buf offset res = Inr res)
   \<and> ((\<forall>blk \<in> set blocks. block_ok blk) \<and> \<not> known_block_type u
        \<and> 10 \<le> length (0xa9 # 0x0b # concat blocks @ u # t)
       \<longrightarrow> decodeShellyManufacturerData (Buffer (0xa9 # 0x0b # concat blocks @ u # t))
             = Inr (Some (foldl (\<lambda>r blk. block_result blk r) empty_result blocks)))"
  using shelly_unknown_stop [of offset buf res] decodeShelly_blocks_buffer [of blocks "u # t"]
  by simp

text \<open>
  Claim C8, at a model block followed by the unknown block type \<open>0x07\<close> and five bytes that
  would read as a flags block.
\<close>

theorem unknown_block_stops_witness:
  "2 < length [0xa9, 0x0b, 0x07 :: byte] \<and> \<not> known_block_type ([0xa9, 0x0b, 0x07] ! 2)
   \<and> decodeShelly_blocks [0xa9, 0x0b, 0x07] 2 empty_result = Inr empty_result
   \<and> block_ok [0x0b, 0x03, 0x00] \<and> \<not> known_block_type 0x07
   \<and> 10 \<le> length (0xa9 # 0x0b # concat [[0x0b, 0x03, 0x00]] @ 0x07 # [0x01, 0xff, 0xff, 0x00, 0x00 :: byte])
   \<and> foldl (\<lambda>r blk. block_result blk r) empty_result [[0x0b, 0x03, 0x00]]
       = \<lparr>companyId = 0x0ba9, flags = None, modelId = Some 3,
          modelIdShortName = Some ''SBHT-003C'', modelIdLongName = Some ''Shelly BLU HT'',
          mac = None\<rparr>
   \<and> decodeShellyManufacturerData
         (Buffer [0xa9, 0x0b, 0x0b, 0x03, 0x00, 0x07, 0x01, 0xff, 0xff, 0x00, 0x00])
       = Inr (Some \<lparr>companyId = 0x0ba9, flags = None, modelId = Some 3,
                     modelIdShortName = Some ''SBHT-003C'',
                     modelIdLongName = Some ''Shelly BLU HT'', mac = None\<rparr>)"
proof -
  have a1: "2 < length [0xa9, 0x0b, 0x07 :: byte]" by simp
  have a2: "\<not> known_block_type ([0xa9, 0x0b, 0x07] ! 2)" by (simp add: known_block_type_def)
  have h1: "\<forall>blk \<in> set [[0x0b, 0x03, 0x00]]. block_ok blk" by (simp add: block_ok_def)
  have h2: "\<not> known_block_type 0x07" by (simp add: known_block_type_def)
  have h3: "10 \<le> length (0xa9 # 0x0b # concat [[0x0b, 0x03, 0x00]] @ 0x07 # [0x01, 0xff, 0xff, 0x00, 0x00 :: byte])"
    by simp
  have f: "foldl (\<lambda>r blk. block_result blk r) empty_result [[0x0b, 0x03, 0x00]]
       = \<lparr>companyId = 0x0ba9, flags = None, modelId = Some 3,
          modelIdShortName = Some ''SBHT-003C'', modelIdLongName = Some ''Shelly BLU HT'',
          mac = None\<rparr>"
    by (simp add: block_result_def empty_result_def shelly_defs)
  from unknown_block_stops [of 2 "[0xa9, 0x0b, 0x07]" empty_result "[[0x0b, 0x03, 0x00]]" "0x07"
          "[0x01, 0xff, 0xff, 0x00, 0x00]"] a1 a2 h1 h2 h3 f
  show ?thesis by simp
qed

end
